theory Spec2Isabelle
  imports Complex_Main "HOL-Library.Word" "HOL-Library.Log_Nat"
begin

unbundle bit_operations_syntax

section \<open>Machine types\<close>

text \<open>
  The C sources (\<^verbatim>\<open>src/tools/midi_pulse.c\<close>, \<^verbatim>\<open>src/tools/midi_stats.c\<close>) work on
  \<^verbatim>\<open>uint64_t\<close> host ticks (\<^verbatim>\<open>MIDITimeStamp\<close>), \<^verbatim>\<open>int64_t\<close> nanosecond samples
  and \<^verbatim>\<open>UInt8\<close> MIDI bytes.  All three are words: \<open>+\<close>, \<open>-\<close> and \<open>*\<close> wrap, \<open>unat\<close>
  reads a word unsigned and \<open>sint\<close> reads it as two's complement.  An \<^verbatim>\<open>int64_t\<close> is a
  64-bit word that is compared with \<open><s\<close> and read with \<open>sint\<close>; the cast
  \<^verbatim>\<open>(int64_t)x\<close> of an \<^verbatim>\<open>uint64_t\<close> keeps the bits.
\<close>

type_synonym u8 = "8 word"
type_synonym u32 = "32 word"
type_synonym u64 = "64 word"
type_synonym i64 = "64 word"
type_synonym u128 = "128 word"

definition INT64_MAX :: i64 where
  "INT64_MAX = 0x7FFFFFFFFFFFFFFF"

definition INT64_MIN :: i64 where
  "INT64_MIN = 0x8000000000000000"

section \<open>Clock abstraction\<close>

text \<open>
  \<^verbatim>\<open>g_timebase\<close> is a \<^verbatim>\<open>mach_timebase_info_data_t\<close>: two \<^verbatim>\<open>uint32_t\<close> fields read
  once in \<^verbatim>\<open>main\<close>.  It is passed explicitly here.
\<close>

record timebase =
  numer :: u32
  denom :: u32


text \<open>
  \<^verbatim>\<open>(uint64_t)(((__uint128_t)host_ticks * g_timebase.numer) / g_timebase.denom)\<close>:
  the product and the quotient are taken at 128 bits, the result is cut to 64 bits.
  The C division traps on a zero divisor; HOL's gives 0, so the theorems about these
  two functions carry the divisor's being nonzero as a hypothesis.
\<close>

definition host_to_ns :: "timebase \<Rightarrow> u64 \<Rightarrow> u64" where
  "host_to_ns tb host_ticks =
     ucast (((ucast host_ticks :: u128) * ucast (numer tb)) div ucast (denom tb))"

definition ns_to_host :: "timebase \<Rightarrow> u64 \<Rightarrow> u64" where
  "ns_to_host tb ns =
     ucast (((ucast ns :: u128) * ucast (denom tb)) div ucast (numer tb))"

text \<open>
  \<^verbatim>\<open>delta_ns_from_host\<close> is the same function in both files (the parameters are
  called \<^verbatim>\<open>actual, target\<close> in midi_pulse.c and \<^verbatim>\<open>newer, older\<close> in midi_stats.c).
  The unary minus is on \<^verbatim>\<open>int64_t\<close>.
\<close>

definition delta_ns_from_host :: "timebase \<Rightarrow> u64 \<Rightarrow> u64 \<Rightarrow> i64" where
  "delta_ns_from_host tb newer older =
     (if newer \<ge> older then host_to_ns tb (newer - older)
      else - host_to_ns tb (older - newer))"


section \<open>Floating point\<close>

text \<open>
  The programs compute in \<^verbatim>\<open>double\<close> and \<^verbatim>\<open>long double\<close>.  A value of either type
  is a rational number, and an operation gives the exact result rounded to the format:
  to the nearest number with the format's count of significand bits, a tie going to
  the one with the even significand.  That count is 53 for \<^verbatim>\<open>double\<close>.  For
  \<^verbatim>\<open>long double\<close> it is the constant \<^verbatim>\<open>LDBL_MANT_DIG\<close> of the platform, which the
  sources do not fix: 64 on x86-64 (the x87 extended format) and 53 on arm64, where
  \<^verbatim>\<open>long double\<close> is \<^verbatim>\<open>double\<close>.  It is the parameter \<open>ldbl\<close> of every function
  below that computes in \<^verbatim>\<open>long double\<close>.  The exponent range is not modelled: the
  numbers of these programs (integers below \<open>2^128\<close> and their quotients by counts
  below \<open>2^64\<close>) are far inside the range of both formats.
\<close>

definition DBL_MANT_DIG :: nat where
  "DBL_MANT_DIG = 53"

text \<open>The nearest integer, a tie going to the even one.\<close>

definition rne :: "rat \<Rightarrow> int" where
  "rne x =
     (let f = \<lfloor>x\<rfloor>; r = x - of_int f
      in if r < 1 / 2 then f else if 1 / 2 < r then f + 1 else if even f then f else f + 1)"

text \<open>
  For \<open>x > 0\<close> the integer \<open>k\<close> with \<open>2^k \<le> x < 2^(k+1)\<close>, from the bit length of
  the integer part of \<open>x\<close> or, below 1, of \<open>1 / x\<close>.
\<close>

definition ilog2 :: "rat \<Rightarrow> int" where
  "ilog2 x = (if 1 \<le> x then bitlen \<lfloor>x\<rfloor> - 1 else - bitlen (\<lceil>1 / x\<rceil> - 1))"

text \<open>
  Rounding to \<open>p\<close> significand bits: the number is scaled by a power of two so that
  its magnitude lies in \<open>[2^(p-1), 2^p)\<close>, rounded to an integer, and scaled back.
\<close>

definition fl_round :: "nat \<Rightarrow> rat \<Rightarrow> rat" where
  "fl_round p x =
     (if x = 0 then 0
      else let e = ilog2 \<bar>x\<bar> - (int p - 1)
           in of_int (rne (x / 2 powi e)) * 2 powi e)"

text \<open>
  \<^verbatim>\<open>llround\<close> rounds a \<^verbatim>\<open>double\<close> to the nearest integer, halves away from zero.
\<close>

definition llround :: "rat \<Rightarrow> int" where
  "llround x = (if 0 \<le> x then \<lfloor>x + 1 / 2\<rfloor> else \<lceil>x - 1 / 2\<rceil>)"

lemma rne_of_int: "rne (of_int n) = n"
  by (simp add: rne_def)

lemma rne_ge: "of_int n \<le> x \<Longrightarrow> n \<le> rne x"
proof -
  assume "of_int n \<le> x"
  then have "n \<le> \<lfloor>x\<rfloor>" by (simp add: le_floor_iff)
  moreover have "\<lfloor>x\<rfloor> \<le> rne x" by (simp add: rne_def Let_def)
  ultimately show ?thesis by simp
qed

lemma rne_le:
  assumes "x \<le> of_int n"
  shows "rne x \<le> n"
proof (cases "x = of_int \<lfloor>x\<rfloor>")
  case True
  then have "rne x = \<lfloor>x\<rfloor>" by (simp add: rne_def Let_def)
  moreover from assms have "\<lfloor>x\<rfloor> \<le> n" by (metis floor_mono floor_of_int)
  ultimately show ?thesis by simp
next
  case False
  from False [symmetric] have "of_int \<lfloor>x\<rfloor> < x"
    using of_int_floor_le [of x] by (rule order.not_eq_order_implies_strict)
  with assms have "(of_int \<lfloor>x\<rfloor> :: rat) < of_int n" by simp
  then have "\<lfloor>x\<rfloor> + 1 \<le> n" by simp
  moreover have "rne x \<le> \<lfloor>x\<rfloor> + 1" by (simp add: rne_def Let_def)
  ultimately show ?thesis by simp
qed

lemma ilog2_lower:
  assumes "0 < x"
  shows "2 powi (ilog2 x) \<le> x"
proof (cases "1 \<le> x")
  case True
  let ?n = "\<lfloor>x\<rfloor>"
  from True have n: "0 < ?n" by simp
  from bitlen_bounds [OF n] have b: "2 ^ nat (bitlen ?n - 1) \<le> ?n" by simp
  from n have "0 < bitlen ?n" using bitlen_nonneg [of ?n] bitlen_eq_zero_iff [of ?n] by simp
  then have "0 \<le> bitlen ?n - 1" by simp
  then have "(2::rat) powi (bitlen ?n - 1) = 2 ^ nat (bitlen ?n - 1)"
    by (simp add: power_int_def)
  also have "\<dots> = of_int (2 ^ nat (bitlen ?n - 1))" by simp
  also from b have "\<dots> \<le> of_int ?n" by (simp only: of_int_le_iff)
  also have "\<dots> \<le> x" by simp
  finally show ?thesis using True by (simp add: ilog2_def)
next
  case False
  let ?y = "1 / x"
  let ?n = "\<lceil>?y\<rceil> - 1"
  from False assms have y: "1 < ?y" by simp
  then have "1 < \<lceil>?y\<rceil>" by (simp add: less_ceiling_iff)
  then have n: "0 < ?n" by simp
  from bitlen_bounds [OF n] have "?n < 2 ^ nat (bitlen ?n)" by simp
  then have "\<lceil>?y\<rceil> \<le> 2 ^ nat (bitlen ?n)" by simp
  then have "(of_int \<lceil>?y\<rceil> :: rat) \<le> of_int (2 ^ nat (bitlen ?n))"
    by (simp only: of_int_le_iff)
  with le_of_int_ceiling [of ?y] have "?y \<le> of_int (2 ^ nat (bitlen ?n))"
    by (rule order_trans)
  then have "?y \<le> 2 ^ nat (bitlen ?n)" by simp
  then have "1 / 2 ^ nat (bitlen ?n) \<le> x" using assms
    by (simp add: field_simps)
  moreover have "(2::rat) powi (- bitlen ?n) = 1 / 2 ^ nat (bitlen ?n)"
    using bitlen_nonneg [of ?n] by (simp add: power_int_def field_simps)
  ultimately show ?thesis using False by (simp add: ilog2_def)
qed

lemma ilog2_upper:
  assumes "0 < x"
  shows "x < 2 powi (ilog2 x + 1)"
proof (cases "1 \<le> x")
  case True
  let ?n = "\<lfloor>x\<rfloor>"
  from True have n: "0 < ?n" by simp
  from bitlen_bounds [OF n] have "?n < 2 ^ nat (bitlen ?n)" by simp
  then have "?n + 1 \<le> 2 ^ nat (bitlen ?n)" by simp
  then have "(of_int (?n + 1) :: rat) \<le> of_int (2 ^ nat (bitlen ?n))"
    by (simp only: of_int_le_iff)
  moreover have "x < of_int (?n + 1)" by linarith
  ultimately have "x < 2 ^ nat (bitlen ?n)" by simp
  moreover have "(2::rat) powi (bitlen ?n) = 2 ^ nat (bitlen ?n)"
    using bitlen_nonneg [of ?n] by (simp add: power_int_def)
  ultimately show ?thesis using True by (simp add: ilog2_def)
next
  case False
  let ?y = "1 / x"
  let ?n = "\<lceil>?y\<rceil> - 1"
  from False assms have y: "1 < ?y" by simp
  then have "1 < \<lceil>?y\<rceil>" by (simp add: less_ceiling_iff)
  then have n: "0 < ?n" by simp
  from n have bpos: "0 < bitlen ?n" using bitlen_nonneg [of ?n] bitlen_eq_zero_iff [of ?n] by simp
  from bitlen_bounds [OF n] have "2 ^ nat (bitlen ?n - 1) \<le> ?n" by simp
  then have "(of_int (2 ^ nat (bitlen ?n - 1)) :: rat) \<le> of_int ?n"
    by (simp only: of_int_le_iff)
  moreover have "of_int ?n < ?y" by linarith
  ultimately have "2 ^ nat (bitlen ?n - 1) < ?y" by simp
  then have "x < 1 / 2 ^ nat (bitlen ?n - 1)" using assms
    by (simp add: field_simps)
  moreover have "(2::rat) powi (- bitlen ?n + 1) = 1 / 2 ^ nat (bitlen ?n - 1)"
  proof -
    have "(2::rat) powi (- bitlen ?n + 1) = 2 powi (- (bitlen ?n - 1))" by simp
    also have "\<dots> = 1 / 2 powi (bitlen ?n - 1)" by (rule power_int_minus_divide)
    also have "\<dots> = 1 / 2 ^ nat (bitlen ?n - 1)" using bpos by (simp add: power_int_nonneg_exp)
    finally show ?thesis .
  qed
  ultimately show ?thesis using False by (simp add: ilog2_def)
qed

lemma ilog2_less:
  assumes "0 < x" and "x < 2 ^ p"
  shows "ilog2 x < int p"
proof -
  from ilog2_lower [OF assms(1)] assms(2) have "(2::rat) powi (ilog2 x) < 2 ^ p" by simp
  then have "(2::rat) powi (ilog2 x) < 2 powi (int p)" by simp
  then show ?thesis by (rule power_int_le_imp_less_exp [rotated]) simp_all
qed

lemma two_powi_nonpos: "e \<le> 0 \<Longrightarrow> (2::rat) powi e = 1 / 2 ^ nat (- e)"
  using power_int_minus_divide [of "2::rat" "- e"] by (simp add: power_int_nonneg_exp)

text \<open>An integer of magnitude below \<open>2^p\<close> has \<open>p\<close> significand bits: rounding keeps it.\<close>

lemma fl_round_of_int:
  assumes "\<bar>k\<bar> < 2 ^ p"
  shows "fl_round p (of_int k) = of_int k"
proof (cases "k = 0")
  case True
  then show ?thesis by (simp add: fl_round_def)
next
  case False
  let ?x = "of_int k :: rat"
  let ?e = "ilog2 \<bar>?x\<bar> - (int p - 1)"
  let ?n = "nat (- ?e)"
  from False have pos: "0 < \<bar>?x\<bar>" by simp
  from assms have "(of_int \<bar>k\<bar> :: rat) < of_int (2 ^ p)" by (simp only: of_int_less_iff)
  then have "\<bar>?x\<bar> < 2 ^ p" by simp
  with pos have "ilog2 \<bar>?x\<bar> < int p" by (rule ilog2_less)
  then have e: "?e \<le> 0" by simp
  then have pw: "(2::rat) powi ?e = 1 / 2 ^ ?n" by (rule two_powi_nonpos)
  have "?x / 2 powi ?e = of_int (k * 2 ^ ?n)" by (simp add: pw)
  then have "rne (?x / 2 powi ?e) = k * 2 ^ ?n" by (simp only: rne_of_int)
  then have "of_int (rne (?x / 2 powi ?e)) * 2 powi ?e = ?x" by (simp add: pw)
  with False show ?thesis by (simp add: fl_round_def Let_def)
qed

lemma fl_round_of_nat: "n < 2 ^ p \<Longrightarrow> fl_round p (of_nat n) = of_nat n"
  using fl_round_of_int [of "int n" p] by simp

lemma fl_round_numeral: "(numeral n :: int) < 2 ^ p \<Longrightarrow> fl_round p (numeral n) = numeral n"
  using fl_round_of_int [of "numeral n" p] by simp

lemma fl_round_0: "fl_round p 0 = 0"
  by (simp add: fl_round_def)

text \<open>
  Rounding does not cross an integer of magnitude below \<open>2^p\<close>: such an integer is
  itself a number of the format.
\<close>

lemma fl_round_ge:
  assumes p: "0 < p" and a: "\<bar>a\<bar> < 2 ^ p" and le: "of_int a \<le> q"
  shows "of_int a \<le> fl_round p q"
proof (cases "q = 0")
  case True
  with le show ?thesis by (simp add: fl_round_def)
next
  case False
  let ?L = "ilog2 \<bar>q\<bar>"
  let ?e = "?L - (int p - 1)"
  let ?s = "q / 2 powi ?e"
  have fl: "fl_round p q = of_int (rne ?s) * 2 powi ?e"
    using False by (simp add: fl_round_def Let_def)
  have pe: "(0::rat) < 2 powi ?e" by simp
  from False have qpos: "0 < \<bar>q\<bar>" by simp
  from a have "(of_int \<bar>a\<bar> :: rat) < of_int (2 ^ p)" by (simp only: of_int_less_iff)
  then have abound: "\<bar>of_int a :: rat\<bar> < 2 ^ p" by simp
  show ?thesis
  proof (cases "?e \<le> 0")
    case True
    let ?n = "nat (- ?e)"
    from True have pw: "(2::rat) powi ?e = 1 / 2 ^ ?n" by (rule two_powi_nonpos)
    from le have "of_int a * 2 ^ ?n \<le> q * 2 ^ ?n" by simp
    then have "of_int (a * 2 ^ ?n) \<le> ?s" by (simp add: pw)
    then have "a * 2 ^ ?n \<le> rne ?s" by (rule rne_ge)
    then have "(of_int (a * 2 ^ ?n) :: rat) \<le> of_int (rne ?s)" by (simp only: of_int_le_iff)
    then have "(of_int (a * 2 ^ ?n) :: rat) * 2 powi ?e \<le> of_int (rne ?s) * 2 powi ?e"
      using pe by (intro mult_right_mono) simp_all
    then show ?thesis by (simp add: fl pw)
  next
    case False
    then have e1: "1 \<le> ?e" by simp
    have big: "(2::rat) ^ p \<le> 2 powi ?L"
    proof -
      from e1 have "int p \<le> ?L" by simp
      then have "(2::rat) powi (int p) \<le> 2 powi ?L" by (intro power_int_increasing) simp_all
      then show ?thesis by simp
    qed
    with ilog2_lower [OF qpos] have qbig: "2 ^ p \<le> \<bar>q\<bar>" by simp
    show ?thesis
    proof (cases "0 < q")
      case True
      with ilog2_lower [OF qpos] have "2 powi ?L \<le> q" by simp
      then have "2 powi ?L / 2 powi ?e \<le> ?s" using pe by (simp add: divide_right_mono)
      moreover have "(2::rat) powi ?L / 2 powi ?e = 2 powi (int p - 1)"
        by (simp flip: power_int_diff)
      ultimately have s: "2 powi (int p - 1) \<le> ?s" by simp
      have p1: "0 \<le> int p - 1" using p by simp
      then have "(2::rat) powi (int p - 1) = of_int (2 ^ nat (int p - 1))"
        by (simp add: power_int_nonneg_exp)
      with s have "of_int (2 ^ nat (int p - 1)) \<le> ?s" by simp
      then have "2 ^ nat (int p - 1) \<le> rne ?s" by (rule rne_ge)
      then have "(of_int (2 ^ nat (int p - 1)) :: rat) \<le> of_int (rne ?s)"
        by (simp only: of_int_le_iff)
      then have "(2::rat) powi (int p - 1) \<le> of_int (rne ?s)"
        using p1 by (simp add: power_int_nonneg_exp)
      then have "(2::rat) powi (int p - 1) * 2 powi ?e \<le> of_int (rne ?s) * 2 powi ?e"
        using pe by (intro mult_right_mono) simp_all
      moreover have "(2::rat) powi (int p - 1) * 2 powi ?e = 2 powi ?L"
        by (simp flip: power_int_add)
      ultimately have "2 powi ?L \<le> fl_round p q" by (simp add: fl)
      with big abound show ?thesis by linarith
    next
      case False
      with \<open>q \<noteq> 0\<close> have "q < 0" by simp
      with qbig have "q \<le> - (2 ^ p)" by simp
      with abound le show ?thesis by linarith
    qed
  qed
qed


lemma fl_round_le:
  assumes p: "0 < p" and a: "\<bar>a\<bar> < 2 ^ p" and le: "q \<le> of_int a"
  shows "fl_round p q \<le> of_int a"
proof (cases "q = 0")
  case True
  with le show ?thesis by (simp add: fl_round_def)
next
  case False
  let ?L = "ilog2 \<bar>q\<bar>"
  let ?e = "?L - (int p - 1)"
  let ?s = "q / 2 powi ?e"
  have fl: "fl_round p q = of_int (rne ?s) * 2 powi ?e"
    using False by (simp add: fl_round_def Let_def)
  have pe: "(0::rat) < 2 powi ?e" by simp
  from False have qpos: "0 < \<bar>q\<bar>" by simp
  from a have "(of_int \<bar>a\<bar> :: rat) < of_int (2 ^ p)" by (simp only: of_int_less_iff)
  then have abound: "\<bar>of_int a :: rat\<bar> < 2 ^ p" by simp
  show ?thesis
  proof (cases "?e \<le> 0")
    case True
    let ?n = "nat (- ?e)"
    from True have pw: "(2::rat) powi ?e = 1 / 2 ^ ?n" by (rule two_powi_nonpos)
    from le have "q * 2 ^ ?n \<le> of_int a * 2 ^ ?n" by simp
    then have "?s \<le> of_int (a * 2 ^ ?n)" by (simp add: pw)
    then have "rne ?s \<le> a * 2 ^ ?n" by (rule rne_le)
    then have "(of_int (rne ?s) :: rat) \<le> of_int (a * 2 ^ ?n)" by (simp only: of_int_le_iff)
    then have "(of_int (rne ?s) :: rat) * 2 powi ?e \<le> of_int (a * 2 ^ ?n) * 2 powi ?e"
      using pe by (intro mult_right_mono) simp_all
    then show ?thesis by (simp add: fl pw)
  next
    case False
    then have e1: "1 \<le> ?e" by simp
    have big: "(2::rat) ^ p \<le> 2 powi ?L"
    proof -
      from e1 have "int p \<le> ?L" by simp
      then have "(2::rat) powi (int p) \<le> 2 powi ?L" by (intro power_int_increasing) simp_all
      then show ?thesis by simp
    qed
    with ilog2_lower [OF qpos] have qbig: "2 ^ p \<le> \<bar>q\<bar>" by simp
    show ?thesis
    proof (cases "q < 0")
      case True
      with ilog2_lower [OF qpos] have "q \<le> - (2 powi ?L)" by simp
      then have "?s \<le> - (2 powi ?L) / 2 powi ?e" using pe by (intro divide_right_mono) simp_all
      moreover have "- ((2::rat) powi ?L) / 2 powi ?e = - (2 powi (int p - 1))"
        by (simp flip: power_int_diff)
      ultimately have s: "?s \<le> - (2 powi (int p - 1))" by simp
      have p1: "0 \<le> int p - 1" using p by simp
      then have "- ((2::rat) powi (int p - 1)) = of_int (- (2 ^ nat (int p - 1)))"
        by (simp add: power_int_nonneg_exp)
      with s have "?s \<le> of_int (- (2 ^ nat (int p - 1)))" by simp
      then have "rne ?s \<le> - (2 ^ nat (int p - 1))" by (rule rne_le)
      then have "(of_int (rne ?s) :: rat) \<le> of_int (- (2 ^ nat (int p - 1)))"
        by (simp only: of_int_le_iff)
      then have "of_int (rne ?s) \<le> - ((2::rat) powi (int p - 1))"
        using p1 by (simp add: power_int_nonneg_exp)
      then have "of_int (rne ?s) * 2 powi ?e \<le> - ((2::rat) powi (int p - 1)) * 2 powi ?e"
        using pe by (intro mult_right_mono) simp_all
      moreover have "- ((2::rat) powi (int p - 1)) * 2 powi ?e = - (2 powi ?L)"
        by (simp flip: power_int_add)
      ultimately have "fl_round p q \<le> - (2 powi ?L)" by (simp add: fl)
      with big abound show ?thesis by linarith
    next
      case False
      with \<open>q \<noteq> 0\<close> have "0 < q" by simp
      with qbig have "2 ^ p \<le> q" by simp
      with abound le show ?thesis by linarith
    qed
  qed
qed

text \<open>Evaluating \<open>fl_round\<close> at numerals.\<close>

lemma floor_rat_numeral: "\<lfloor>numeral a / numeral b :: rat\<rfloor> = numeral a div numeral b"
  by (metis floor_divide_of_int_eq of_int_numeral)

lemma floor_rat_neg_numeral: "\<lfloor>- (numeral a / numeral b) :: rat\<rfloor> = - numeral a div numeral b"
  by (metis divide_minus_left floor_divide_of_int_eq of_int_neg_numeral of_int_numeral)

lemma ceiling_rat_numeral: "\<lceil>numeral a / numeral b :: rat\<rceil> = - (- numeral a div numeral b)"
  using ceiling_divide_eq_div [of "numeral a" "numeral b", where ?'a = rat] by simp

lemmas fl_eval = fl_round_def ilog2_def bitlen_def compute_floorlog rne_def power_int_def
  floor_rat_numeral floor_rat_neg_numeral ceiling_rat_numeral Let_def
  power_one_over inverse_eq_divide

section \<open>Statistics engine\<close>

text \<open>
  The accumulators keep \<^verbatim>\<open>int64_t\<close> extremes, an \<^verbatim>\<open>uint64_t\<close> count and
  \<^verbatim>\<open>long double\<close> sums.  A sample is converted to \<^verbatim>\<open>long double\<close> (rounded when it
  has more bits than the format), and each \<open>+=\<close> rounds the new sum; \<^verbatim>\<open>fabsl\<close> is
  exact.  In \<^verbatim>\<open>sum_sq += value * value\<close> the product and the sum are rounded one after
  the other, as the abstract machine of C has it; a compiler may fuse the two into one
  rounding, so no theorem below reads a sum of squares.
\<close>

text \<open>\<^verbatim>\<open>JitterStats\<close> of midi_pulse.c (named apart from the one of midi_stats.c).\<close>

record JitterStats_pulse =
  min_late_ns :: i64
  max_late_ns :: i64
  sum_late_ns :: rat
  sum_abs_late_ns :: rat
  late_count :: u64

definition stats_init :: JitterStats_pulse where
  "stats_init =
     \<lparr>min_late_ns = INT64_MAX, max_late_ns = INT64_MIN,
      sum_late_ns = 0, sum_abs_late_ns = 0, late_count = 0\<rparr>"

definition stats_add :: "nat \<Rightarrow> JitterStats_pulse \<Rightarrow> i64 \<Rightarrow> JitterStats_pulse" where
  "stats_add ldbl stats late_ns =
     \<lparr>min_late_ns = (if late_ns <s min_late_ns stats then late_ns else min_late_ns stats),
      max_late_ns = (if max_late_ns stats <s late_ns then late_ns else max_late_ns stats),
      sum_late_ns =
        fl_round ldbl (sum_late_ns stats + fl_round ldbl (of_int (sint late_ns))),
      sum_abs_late_ns =
        fl_round ldbl (sum_abs_late_ns stats + \<bar>fl_round ldbl (of_int (sint late_ns))\<bar>),
      late_count = late_count stats + 1\<rparr>"

text \<open>\<^verbatim>\<open>IntervalStats\<close> of midi_stats.c; the fields carry an \<open>i\<close> to keep them apart.\<close>

record IntervalStats =
  imin_ns :: i64
  imax_ns :: i64
  isum_ns :: rat
  isum_sq_ns :: rat
  icount :: u64

definition interval_init :: IntervalStats where
  "interval_init =
     \<lparr>imin_ns = INT64_MAX, imax_ns = INT64_MIN, isum_ns = 0, isum_sq_ns = 0, icount = 0\<rparr>"

definition interval_add :: "nat \<Rightarrow> IntervalStats \<Rightarrow> i64 \<Rightarrow> IntervalStats" where
  "interval_add ldbl stats value_ns =
     (let v = fl_round ldbl (of_int (sint value_ns)) in
      \<lparr>imin_ns = (if value_ns <s imin_ns stats then value_ns else imin_ns stats),
       imax_ns = (if imax_ns stats <s value_ns then value_ns else imax_ns stats),
       isum_ns = fl_round ldbl (isum_ns stats + v),
       isum_sq_ns = fl_round ldbl (isum_sq_ns stats + fl_round ldbl (v * v)),
       icount = icount stats + 1\<rparr>)"

text \<open>\<^verbatim>\<open>JitterStats\<close> of midi_stats.c.\<close>

record JitterStats =
  min_ns :: i64
  max_ns :: i64
  sum_ns :: rat
  sum_abs_ns :: rat
  sum_sq_ns :: rat
  count :: u64

definition jitter_init :: JitterStats where
  "jitter_init =
     \<lparr>min_ns = INT64_MAX, max_ns = INT64_MIN, sum_ns = 0, sum_abs_ns = 0, sum_sq_ns = 0,
      count = 0\<rparr>"

definition jitter_add :: "nat \<Rightarrow> JitterStats \<Rightarrow> i64 \<Rightarrow> JitterStats" where
  "jitter_add ldbl stats value_ns =
     (let v = fl_round ldbl (of_int (sint value_ns)) in
      \<lparr>min_ns = (if value_ns <s min_ns stats then value_ns else min_ns stats),
       max_ns = (if max_ns stats <s value_ns then value_ns else max_ns stats),
       sum_ns = fl_round ldbl (sum_ns stats + v),
       sum_abs_ns = fl_round ldbl (sum_abs_ns stats + \<bar>v\<bar>),
       sum_sq_ns = fl_round ldbl (sum_sq_ns stats + fl_round ldbl (v * v)),
       count = count stats + 1\<rparr>)"

text \<open>
  The mean as the report functions compute it, in nanoseconds:
  \<^verbatim>\<open>sum / (long double)count\<close>, the count converted and the quotient rounded.  They
  compute it only for a count that is not zero.
\<close>

definition mean_ns :: "nat \<Rightarrow> rat \<Rightarrow> u64 \<Rightarrow> rat" where
  "mean_ns ldbl sm cnt = fl_round ldbl (sm / fl_round ldbl (of_nat (unat cnt)))"

section \<open>Series tracker (midi_stats.c)\<close>

text \<open>
  \<^verbatim>\<open>SeriesStats\<close>; its \<^verbatim>\<open>events_seen\<close> is called \<open>series_events_seen\<close> here, to keep
  it apart from the field of \<^verbatim>\<open>RuntimeState\<close>.
\<close>

record SeriesStats =
  have_previous :: bool
  previous_timestamp :: u64
  have_reference_interval :: bool
  reference_interval_ns :: i64
  series_events_seen :: u64
  intervals_seen :: u64
  interval :: IntervalStats
  jitter :: JitterStats

definition series_init :: SeriesStats where
  "series_init =
     \<lparr>have_previous = False, previous_timestamp = 0, have_reference_interval = False,
      reference_interval_ns = 0, series_events_seen = 0, intervals_seen = 0,
      interval = interval_init, jitter = jitter_init\<rparr>"

definition series_add_event :: "nat \<Rightarrow> timebase \<Rightarrow> SeriesStats \<Rightarrow> u64 \<Rightarrow> SeriesStats" where
  "series_add_event ldbl tb series timestamp =
     (if \<not> have_previous series then
        series\<lparr>have_previous := True, previous_timestamp := timestamp,
               series_events_seen := 1\<rparr>
      else
        let interval_ns = delta_ns_from_host tb timestamp (previous_timestamp series);
            s1 = series\<lparr>previous_timestamp := timestamp,
                        series_events_seen := series_events_seen series + 1\<rparr>;
            s2 = (if \<not> have_reference_interval s1
                  then s1\<lparr>reference_interval_ns := interval_ns,
                           have_reference_interval := True\<rparr>
                  else s1);
            jitter_ns = interval_ns - reference_interval_ns s2
        in s2\<lparr>interval := interval_add ldbl (interval s2) interval_ns,
               jitter := jitter_add ldbl (jitter s2) jitter_ns,
               intervals_seen := intervals_seen s2 + 1\<rparr>)"

text \<open>
  \<^verbatim>\<open>Config\<close> of midi_stats.c, without \<^verbatim>\<open>destination_spec\<close> and \<^verbatim>\<open>list_only\<close>, which
  only \<^verbatim>\<open>main\<close> reads.  \<^verbatim>\<open>channel\<close> and \<^verbatim>\<open>report_every\<close> are \<^verbatim>\<open>int\<close>, \<^verbatim>\<open>count\<close>
  is \<^verbatim>\<open>long long\<close>.
\<close>

record Config =
  channel :: int
  cfg_count :: int
  report_every :: int

record RuntimeState =
  cfg :: Config
  events_seen :: u64
  timestamped_events :: u64
  untimestamped_events :: u64
  effective_series :: SeriesStats
  timestamped_series :: SeriesStats
  arrival_vs_timestamp :: JitterStats

text \<open>
  The state \<^verbatim>\<open>main\<close> builds before it connects the port: \<^verbatim>\<open>RuntimeState state = {0}\<close>,
  the configuration, \<^verbatim>\<open>series_init\<close> twice and \<^verbatim>\<open>jitter_init\<close>.
\<close>

definition runtime_init :: "Config \<Rightarrow> RuntimeState" where
  "runtime_init c =
     \<lparr>cfg = c, events_seen = 0, timestamped_events = 0, untimestamped_events = 0,
      effective_series = series_init, timestamped_series = series_init,
      arrival_vs_timestamp = jitter_init\<rparr>"

text \<open>
  \<^verbatim>\<open>on_matching_event\<close>.  Its last two statements do not write to the
  \<^verbatim>\<open>RuntimeState\<close>: \<^verbatim>\<open>print_report\<close> takes the state through a pointer to
  \<^verbatim>\<open>const\<close> and only prints, and the other one clears the global
  \<^verbatim>\<open>g_keep_running\<close>.  Their conditions are \<open>report_due\<close> and \<open>stop_requested\<close>,
  on the state the function returns.
\<close>

definition on_matching_event :: "nat \<Rightarrow> timebase \<Rightarrow> RuntimeState \<Rightarrow> u64 \<Rightarrow> u64 \<Rightarrow> RuntimeState" where
  "on_matching_event ldbl tb state packet_timestamp arrival_timestamp =
     (let has_packet_timestamp = (packet_timestamp \<noteq> 0);
          effective_timestamp =
            (if has_packet_timestamp then packet_timestamp else arrival_timestamp);
          s1 = state\<lparr>events_seen := events_seen state + 1\<rparr>;
          s2 = (if has_packet_timestamp then
                  s1\<lparr>timestamped_events := timestamped_events s1 + 1,
                     timestamped_series :=
                       series_add_event ldbl tb (timestamped_series s1) packet_timestamp,
                     arrival_vs_timestamp :=
                       jitter_add ldbl (arrival_vs_timestamp s1)
                         (delta_ns_from_host tb arrival_timestamp packet_timestamp)\<rparr>
                else
                  s1\<lparr>untimestamped_events := untimestamped_events s1 + 1\<rparr>)
      in s2\<lparr>effective_series :=
               series_add_event ldbl tb (effective_series s2) effective_timestamp\<rparr>)"

definition report_due :: "RuntimeState \<Rightarrow> bool" where
  "report_due state \<longleftrightarrow>
     report_every (cfg state) > 0 \<and>
     events_seen state mod word_of_int (report_every (cfg state)) = 0"

definition stop_requested :: "RuntimeState \<Rightarrow> bool" where
  "stop_requested state \<longleftrightarrow>
     cfg_count (cfg state) > 0 \<and> sint (events_seen state) \<ge> cfg_count (cfg state)"

section \<open>Classifier (midi_stats.c)\<close>

definition midi_channel_message_length :: "u8 \<Rightarrow> nat" where
  "midi_channel_message_length status =
     (let hi = status AND 0xF0 in if hi = 0xC0 \<or> hi = 0xD0 then 2 else 3)"

definition midi_system_message_length :: "u8 \<Rightarrow> nat" where
  "midi_system_message_length status =
     (if status = 0xF1 \<or> status = 0xF3 then 2
      else if status = 0xF2 then 3
      else if status = 0xF6 \<or> status = 0xF8 \<or> status = 0xFA \<or> status = 0xFB \<or>
              status = 0xFC \<or> status = 0xFE \<or> status = 0xFF then 1
      else 0)"

text \<open>
  The inner loop of the system-exclusive branch:
  \<^verbatim>\<open>while (i < length && data[i] != 0xF7U) i += 1;\<close>
\<close>

function sysex_scan :: "u8 list \<Rightarrow> nat \<Rightarrow> nat" where
  "sysex_scan data i =
     (if i < length data \<and> data ! i \<noteq> 0xF7 then sysex_scan data (i + 1) else i)"
  by pat_completeness auto
termination
  by (relation "measure (\<lambda>(data, i). length data - i)") auto

declare sysex_scan.simps [simp del]

text \<open>
  One pass through the body of the \<^verbatim>\<open>while (i < length)\<close> loop of
  \<^verbatim>\<open>process_packet_bytes\<close>, entered with \<open>i < length data\<close>.  \<open>Stop\<close> is a
  \<^verbatim>\<open>break\<close>; \<open>Next i' hit\<close> is the end of the body or a \<^verbatim>\<open>continue\<close> with the index
  at \<open>i'\<close>, and \<open>hit\<close> tells whether the pass called \<^verbatim>\<open>on_matching_event\<close>.
  Every read \<open>data ! j\<close> is below \<open>length data\<close>: the status byte by the loop condition,
  the velocity by the length check before it.
\<close>

datatype pass = Stop | Next nat bool

definition scan_pass :: "int \<Rightarrow> u8 list \<Rightarrow> nat \<Rightarrow> pass" where
  "scan_pass cfg_channel data i =
     (let status = data ! i in
      if status AND 0x80 = 0 then Next (i + 1) False
      else if status \<ge> 0xF0 then
        (if status = 0xF0 then
           (let j = sysex_scan data (i + 1)
            in Next (if j < length data then j + 1 else j) False)
         else
           let system_len = midi_system_message_length status in
           if system_len = 0 then Next (i + 1) False
           else if i + system_len > length data then Stop
           else Next (i + system_len) False)
      else
        let msg_len = midi_channel_message_length status in
        if i + msg_len > length data then Stop
        else
          let ch = int (unat (status AND 0x0F)) + 1;
              hi = status AND 0xF0
          in Next (i + msg_len)
               (ch = cfg_channel \<and> hi = 0x90 \<and> msg_len = 3 \<and> data ! (i + 2) > 0))"

lemma sysex_scan_ge: "i \<le> sysex_scan data i"
proof (induction data i rule: sysex_scan.induct)
  case (1 data i)
  show ?case
  proof (cases "i < length data \<and> data ! i \<noteq> 0xF7")
    case True
    with "1" have "i + 1 \<le> sysex_scan data (i + 1)" by blast
    moreover from True have "sysex_scan data i = sysex_scan data (i + 1)"
      by (subst sysex_scan.simps) simp
    ultimately show ?thesis by simp
  next
    case False
    then have "sysex_scan data i = i" by (subst sysex_scan.simps) auto
    then show ?thesis by simp
  qed
qed

lemma midi_channel_message_length_pos: "0 < midi_channel_message_length status"
  by (simp add: midi_channel_message_length_def Let_def)

lemma scan_pass_advances:
  assumes "scan_pass c data i = Next i' hit"
  shows "i < i'"
proof -
  let ?s = "data ! i"
  consider (data) "?s AND 0x80 = 0"
    | (sysex) "?s AND 0x80 \<noteq> 0" "?s \<ge> 0xF0" "?s = 0xF0"
    | (system) "?s AND 0x80 \<noteq> 0" "?s \<ge> 0xF0" "?s \<noteq> 0xF0"
    | (voice) "?s AND 0x80 \<noteq> 0" "\<not> ?s \<ge> 0xF0"
    by blast
  then show ?thesis
  proof cases
    case data
    with assms have "i' = i + 1" by (simp add: scan_pass_def)
    then show ?thesis by simp
  next
    case sysex
    with assms
    have "i' = (let j = sysex_scan data (i + 1) in if j < length data then j + 1 else j)"
      by (simp add: scan_pass_def Let_def)
    with sysex_scan_ge [of "i + 1" data] show ?thesis
      by (simp add: Let_def split: if_splits)
  next
    case system
    with assms
    have "i' = i + 1 \<or>
          (midi_system_message_length ?s \<noteq> 0 \<and> i' = i + midi_system_message_length ?s)"
      by (simp add: scan_pass_def Let_def split: if_splits)
    then show ?thesis by auto
  next
    case voice
    with assms have "i' = i + midi_channel_message_length ?s"
      by (simp add: scan_pass_def Let_def split: if_splits)
    with midi_channel_message_length_pos [of ?s] show ?thesis by simp
  qed
qed

function process_packet_bytes ::
  "nat \<Rightarrow> timebase \<Rightarrow> RuntimeState \<Rightarrow> u64 \<Rightarrow> u64 \<Rightarrow> u8 list \<Rightarrow> nat \<Rightarrow> RuntimeState" where
  "process_packet_bytes ldbl tb state packet_timestamp arrival_timestamp data i =
     (if i < length data then
        (case scan_pass (channel (cfg state)) data i of
           Stop \<Rightarrow> state
         | Next i' hit \<Rightarrow>
             process_packet_bytes ldbl tb
               (if hit then on_matching_event ldbl tb state packet_timestamp arrival_timestamp
                else state)
               packet_timestamp arrival_timestamp data i')
      else state)"
  by pat_completeness auto
termination
  by (relation "measure (\<lambda>(ldbl, tb, state, pts, ats, data, i). length data - i)")
     (auto dest: scan_pass_advances)

declare process_packet_bytes.simps [simp del]

text \<open>
  The same loop with a bound on the number of passes: \<open>n\<close> is the number of times the
  loop body may still be entered, and \<open>None\<close> says that the bound was reached with
  \<open>i < length data\<close> still true.
\<close>

fun process_fuel ::
  "nat \<Rightarrow> nat \<Rightarrow> timebase \<Rightarrow> RuntimeState \<Rightarrow> u64 \<Rightarrow> u64 \<Rightarrow> u8 list \<Rightarrow> nat \<Rightarrow> RuntimeState option" where
  "process_fuel 0 ldbl tb state packet_timestamp arrival_timestamp data i =
     (if i < length data then None else Some state)"
| "process_fuel (Suc n) ldbl tb state packet_timestamp arrival_timestamp data i =
     (if i < length data then
        (case scan_pass (channel (cfg state)) data i of
           Stop \<Rightarrow> Some state
         | Next i' hit \<Rightarrow>
             process_fuel n ldbl tb
               (if hit then on_matching_event ldbl tb state packet_timestamp arrival_timestamp
                else state)
               packet_timestamp arrival_timestamp data i')
      else Some state)"

section \<open>Dispatch scheduler (midi_pulse.c)\<close>

text \<open>
  The two configuration values \<^verbatim>\<open>interval_ms\<close> and \<^verbatim>\<open>gate\<close> are \<^verbatim>\<open>double\<close>s; the
  model takes their values, which are rationals.  \<^verbatim>\<open>main\<close> computes
  \<^verbatim>\<open>interval_ns = (uint64_t)llround(cfg.interval_ms * 1000000.0)\<close>, a product of
  \<^verbatim>\<open>double\<close>s, and
  \<^verbatim>\<open>gate_ns = (uint64_t)llround((long double)interval_ns * cfg.gate)\<close>, where the
  count is converted to \<^verbatim>\<open>long double\<close>, the product is a \<^verbatim>\<open>long double\<close>, and the
  call of \<^verbatim>\<open>llround\<close>, which takes a \<^verbatim>\<open>double\<close>, converts it to \<^verbatim>\<open>double\<close>.
\<close>

definition interval_ns_of :: "rat \<Rightarrow> u64" where
  "interval_ns_of interval_ms =
     word_of_int (llround (fl_round DBL_MANT_DIG (interval_ms * 1000000)))"

definition gate_ns_of :: "nat \<Rightarrow> u64 \<Rightarrow> rat \<Rightarrow> u64" where
  "gate_ns_of ldbl interval_ns gate =
     word_of_int (llround (fl_round DBL_MANT_DIG
       (fl_round ldbl (fl_round ldbl (of_nat (unat interval_ns)) * gate))))"

text \<open>
  What the dispatch loop of \<^verbatim>\<open>main\<close> reads and never writes: the three message
  bytes, \<^verbatim>\<open>cfg.count\<close> (a \<^verbatim>\<open>long long\<close>, 0 for no bound), the anchor
  \<^verbatim>\<open>start_host\<close> and the three tick durations.  (\<^verbatim>\<open>note\<close> is \<open>note_num\<close>
  here and \<^verbatim>\<open>cfg.count\<close> is \<open>pulse_count\<close>.)
\<close>

record pulse_params =
  channel_zero_based :: u8
  note_num :: u8
  velocity :: u8
  pulse_count :: int
  start_host :: u64
  interval_host :: u64
  gate_host :: u64
  schedule_lead_host :: u64

text \<open>
  The durations as \<^verbatim>\<open>main\<close> derives them from the configuration, anchor and
  message bytes given.
\<close>

definition schedule_lead_ns_of :: "u64 \<Rightarrow> u64" where
  "schedule_lead_ns_of interval_ns =
     (let schedule_lead_ns = interval_ns div 2
      in if schedule_lead_ns > 2000000 then 2000000 else schedule_lead_ns)"

definition pulse_params_of ::
  "nat \<Rightarrow> timebase \<Rightarrow> u8 \<Rightarrow> u8 \<Rightarrow> u8 \<Rightarrow> int \<Rightarrow> rat \<Rightarrow> rat \<Rightarrow> u64 \<Rightarrow> pulse_params" where
  "pulse_params_of ldbl tb ch n v cnt interval_ms gate start =
     (let interval_ns = interval_ns_of interval_ms;
          gate_ns = gate_ns_of ldbl interval_ns gate
      in \<lparr>channel_zero_based = ch, note_num = n, velocity = v, pulse_count = cnt,
          start_host = start,
          interval_host = ns_to_host tb interval_ns,
          gate_host = ns_to_host tb gate_ns,
          schedule_lead_host = ns_to_host tb (schedule_lead_ns_of interval_ns)\<rparr>)"

text \<open>A message handed to \<^verbatim>\<open>send_short_at\<close>: the time stamp and the three bytes.\<close>

record midi_msg =
  timestamp :: u64
  status :: u8
  data1 :: u8
  data2 :: u8

text \<open>
  The world of the loop.  \<open>clock\<close> is the injectable clock: the values the coming calls
  of \<^verbatim>\<open>now_host\<close> return, in order, whatever the sleeps in between did.  The
  termination signal is taken to arrive when the trace is used up, so
  \<^verbatim>\<open>g_keep_running\<close> reads as \<open>clock \<noteq> []\<close>.  \<open>sent\<close> lists the messages the
  transport has accepted.
\<close>

record pulse_state =
  clock :: "u64 list"
  note_is_on :: bool
  sent_notes :: u64
  stats :: JitterStats_pulse
  sent :: "midi_msg list"

text \<open>
  \<^verbatim>\<open>sleep_until_host\<close>: read the clock until it shows the target or the signal
  arrives; the \<^verbatim>\<open>nanosleep\<close>s between two readings only let time pass.  The result
  is the rest of the trace.
\<close>

fun sleep_until_host :: "u64 \<Rightarrow> u64 list \<Rightarrow> u64 list" where
  "sleep_until_host target_host [] = []"
| "sleep_until_host target_host (current # rest) =
     (if current \<ge> target_host then rest else sleep_until_host target_host rest)"

lemma sleep_until_host_length: "length (sleep_until_host t clk) \<le> length clk"
  by (induction clk) auto

lemma sleep_until_host_Cons:
  "sleep_until_host t clk = x # rest \<Longrightarrow> length rest < length clk"
  using sleep_until_host_length [of t clk] by simp

definition on_target_of :: "pulse_params \<Rightarrow> nat \<Rightarrow> u64" where
  "on_target_of p i = start_host p + word_of_nat i * interval_host p"

definition note_on_msg :: "pulse_params \<Rightarrow> u64 \<Rightarrow> midi_msg" where
  "note_on_msg p on_target =
     \<lparr>timestamp = on_target, status = 0x90 OR channel_zero_based p,
      data1 = note_num p, data2 = velocity p\<rparr>"

definition note_off_msg :: "pulse_params \<Rightarrow> u64 \<Rightarrow> midi_msg" where
  "note_off_msg p off_target =
     \<lparr>timestamp = off_target, status = 0x80 OR channel_zero_based p,
      data1 = note_num p, data2 = 0\<rparr>"

text \<open>
  The \<^verbatim>\<open>for\<close> loop of \<^verbatim>\<open>main\<close>, from iteration \<open>i\<close> on.  \<open>send_ok k\<close> tells whether
  the transport accepts the send that follows \<open>k\<close> accepted ones (a refused send leaves
  the loop, so inside the loop every earlier send was accepted).  The index \<open>i\<close> is a
  \<^verbatim>\<open>long long\<close> that only counts up from 0; \<^verbatim>\<open>(uint64_t)i\<close> is \<open>word_of_nat i\<close>.
  The two \<^verbatim>\<open>printf\<close>s and \<^verbatim>\<open>stats_print\<close> write to the terminal only.  The clean-up
  after the loop (a note-off if the note is still on, two controller messages) is not
  part of the loop.
\<close>

function pulse_loop ::
  "nat \<Rightarrow> timebase \<Rightarrow> pulse_params \<Rightarrow> (nat \<Rightarrow> bool) \<Rightarrow> nat \<Rightarrow> pulse_state \<Rightarrow> pulse_state" where
  "pulse_loop ldbl tb p send_ok i st =
     (if clock st = [] \<or> \<not> (pulse_count p = 0 \<or> int i < pulse_count p) then st
      else
        let on_target = start_host p + word_of_nat i * interval_host p;
            dispatch_target =
              (if on_target > schedule_lead_host p then on_target - schedule_lead_host p
               else on_target)
        in case sleep_until_host dispatch_target (clock st) of
             [] \<Rightarrow> st\<lparr>clock := []\<rparr>
           | dispatch_now # rest \<Rightarrow>
               let late_ns = delta_ns_from_host tb dispatch_now on_target in
               if \<not> send_ok (length (sent st)) then st\<lparr>clock := rest\<rparr>
               else
                 let st1 = st\<lparr>clock := rest, note_is_on := True,
                              sent_notes := sent_notes st + 1,
                              stats := stats_add ldbl (stats st) late_ns,
                              sent := sent st @ [note_on_msg p on_target]\<rparr>;
                     off_target = on_target + gate_host p
                 in if \<not> send_ok (length (sent st1)) then st1
                    else pulse_loop ldbl tb p send_ok (i + 1)
                           (st1\<lparr>note_is_on := False,
                                sent := sent st1 @ [note_off_msg p off_target]\<rparr>))"
  by pat_completeness auto

termination
  by (relation "measure (\<lambda>(ldbl, tb, p, ok, i, st). length (clock st))")
     (auto dest: sleep_until_host_Cons)

declare pulse_loop.simps [simp del]

text \<open>The state in which \<^verbatim>\<open>main\<close> enters the loop.\<close>

definition pulse_init :: "u64 list \<Rightarrow> pulse_state" where
  "pulse_init clk =
     \<lparr>clock = clk, note_is_on = False, sent_notes = 0, stats = stats_init, sent = []\<rparr>"

section \<open>Clock abstraction: the signed tick delta\<close>

text \<open>
  The exact number of nanoseconds in a number of ticks, as a natural number: the
  quotient of the unbounded product by the denominator.
\<close>

definition ticks_to_ns_exact :: "timebase \<Rightarrow> nat \<Rightarrow> nat" where
  "ticks_to_ns_exact tb ticks = ticks * unat (numer tb) div unat (denom tb)"

lemma nat_mult_bound: "(a::nat) < A \<Longrightarrow> b < B \<Longrightarrow> a * b < A * B"
  by (rule mult_strict_mono') simp_all

lemma unat_ucast_64_128: "unat (ucast (t::u64) :: u128) = unat t"
proof -
  have "unat t < 2^64" using unsigned_less [of t] by simp
  then have "unat t < 2^128" by simp
  then show ?thesis by (simp add: unsigned_ucast_eq take_bit_nat_eq_self)
qed

lemma unat_ucast_32_128: "unat (ucast (n::u32) :: u128) = unat n"
proof -
  have "unat n < 2^32" using unsigned_less [of n] by simp
  then have "unat n < 2^128" by simp
  then show ?thesis by (simp add: unsigned_ucast_eq take_bit_nat_eq_self)
qed

lemma widened_product_exact:
  "unat ((ucast (t::u64) :: u128) * ucast (n::u32)) = unat t * unat n"
proof -
  have "unat t < 2^64" using unsigned_less [of t] by simp
  moreover have "unat n < 2^32" using unsigned_less [of n] by simp
  ultimately have "unat t * unat n < 2^64 * 2^32" by (rule nat_mult_bound)
  then have "unat t * unat n < 2^128" by simp
  then have "unat (ucast t :: u128) * unat (ucast n :: u128) < 2 ^ LENGTH(128)"
    by (simp add: unat_ucast_64_128 unat_ucast_32_128)
  then have "unat ((ucast t :: u128) * ucast n) = unat (ucast t :: u128) * unat (ucast n :: u128)"
    by (simp only: unat_mult_lem)
  then show ?thesis
    by (simp add: unat_ucast_64_128 unat_ucast_32_128)
qed

lemma widened_quotient_exact:
  "unat (((ucast (t::u64) :: u128) * ucast (n::u32)) div ucast (d::u32)) =
   unat t * unat n div unat d"
  by (simp add: unat_div widened_product_exact unat_ucast_32_128)

lemma ucast_128_64: "(ucast (w::u128) :: u64) = word_of_nat (unat w)"
  by simp

lemma host_to_ns_exact: "host_to_ns tb t = word_of_nat (ticks_to_ns_exact tb (unat t))"
  unfolding host_to_ns_def ticks_to_ns_exact_def
  by (simp only: ucast_128_64 widened_quotient_exact)

lemma ns_to_host_exact:
  "ns_to_host tb ns = word_of_nat (unat ns * unat (denom tb) div unat (numer tb))"
  unfolding ns_to_host_def by (simp only: ucast_128_64 widened_quotient_exact)






section \<open>Statistics engine: what the accumulators hold\<close>

text \<open>
  What holds of the extremes \<open>mn\<close> and \<open>mx\<close> and the count \<open>cnt\<close> of an accumulator
  after the samples \<open>xs\<close>, comparisons signed.  The count is 64 bits wide; it is the
  number of samples as long as that number is below \<open>2^64\<close>.
\<close>

definition stat_bounds :: "i64 \<Rightarrow> i64 \<Rightarrow> u64 \<Rightarrow> i64 list \<Rightarrow> bool" where
  "stat_bounds mn mx cnt xs \<longleftrightarrow>
     cnt = word_of_nat (length xs) \<and>
     (length xs < 2^64 \<longrightarrow> unat cnt = length xs) \<and>
     (\<forall>x \<in> set xs. mn \<le>s x \<and> x \<le>s mx)"

text \<open>
  No sum of the samples \<open>xs\<close> is rounded: the magnitudes of the samples add up to less
  than \<open>2^ldbl\<close>, and there are fewer than \<open>2^ldbl\<close> samples (so that the count is
  converted exactly).
\<close>

definition sums_exact :: "nat \<Rightarrow> i64 list \<Rightarrow> bool" where
  "sums_exact ldbl xs \<longleftrightarrow>
     0 < ldbl \<and> length xs < 2 ^ ldbl \<and> length xs < 2^64 \<and>
     sum_list (map (\<lambda>x. \<bar>sint x\<bar>) xs) < 2 ^ ldbl"

text \<open>
  The mean lies between the extremes: the mean as the reports compute it, and the
  quotient of the sum by the count as a number.
\<close>

definition mean_within :: "nat \<Rightarrow> i64 \<Rightarrow> i64 \<Rightarrow> rat \<Rightarrow> u64 \<Rightarrow> bool" where
  "mean_within ldbl mn mx sm cnt \<longleftrightarrow>
     of_int (sint mn) \<le> mean_ns ldbl sm cnt \<and> mean_ns ldbl sm cnt \<le> of_int (sint mx) \<and>
     of_int (sint mn) \<le> sm / of_nat (unat cnt) \<and> sm / of_nat (unat cnt) \<le> of_int (sint mx)"

definition stat_invariant :: "nat \<Rightarrow> i64 \<Rightarrow> i64 \<Rightarrow> rat \<Rightarrow> u64 \<Rightarrow> i64 list \<Rightarrow> bool" where
  "stat_invariant ldbl mn mx sm cnt xs \<longleftrightarrow>
     stat_bounds mn mx cnt xs \<and>
     (sums_exact ldbl xs \<and> 0 < cnt \<longrightarrow>
        sm = of_int (sum_list (map sint xs)) \<and> mean_within ldbl mn mx sm cnt)"

lemma sum_list_lower: "(\<forall>x \<in> set xs. m \<le> f x) \<Longrightarrow> m * int (length xs) \<le> sum_list (map f xs)"
  by (induction xs) (auto simp: algebra_simps)

lemma sum_list_upper: "(\<forall>x \<in> set xs. f x \<le> m) \<Longrightarrow> sum_list (map f xs) \<le> m * int (length xs)"
  by (induction xs) (auto simp: algebra_simps)

lemma abs_sum_list_le: "\<bar>sum_list (map f xs)\<bar> \<le> sum_list (map (\<lambda>x. \<bar>f x :: int\<bar>) xs)"
  by (induction xs) auto

lemma abs_member_le_sum_list:
  "x \<in> set xs \<Longrightarrow> \<bar>f x :: int\<bar> \<le> sum_list (map (\<lambda>x. \<bar>f x\<bar>) xs)"
proof (induction xs)
  case Nil
  then show ?case by simp
next
  case (Cons y ys)
  have "0 \<le> sum_list (map (\<lambda>x. \<bar>f x\<bar>) ys)" by (rule sum_list_nonneg) auto
  with Cons show ?case by auto
qed

lemma unat_word_of_nat_64: "n < 2^64 \<Longrightarrow> unat (word_of_nat n :: u64) = n"
  by (simp add: unat_of_nat)

lemma stat_boundsI:
  assumes "cnt = word_of_nat (length xs)"
    and "\<forall>x \<in> set xs. sint mn \<le> sint x"
    and "\<forall>x \<in> set xs. sint x \<le> sint mx"
  shows "stat_bounds mn mx cnt xs"
  using assms unfolding stat_bounds_def
  by (simp add: unat_word_of_nat_64 word_sle_eq)

text \<open>
  The mean of sums that were not rounded.  The least and the greatest sample are
  numbers of the format, and rounding the quotient crosses neither.
\<close>

lemma mean_withinI:
  assumes ex: "sums_exact ldbl xs"
    and pos: "0 < cnt"
    and cnt: "cnt = word_of_nat (length xs)"
    and sm: "sm = of_int (sum_list (map sint xs))"
    and lo: "\<forall>x \<in> set xs. sint mn \<le> sint x"
    and hi: "\<forall>x \<in> set xs. sint x \<le> sint mx"
  shows "mean_within ldbl mn mx sm cnt"
proof -
  let ?n = "length xs"
  let ?S = "sum_list (map sint xs)"
  let ?A = "sum_list (map (\<lambda>x. \<bar>sint x\<bar>) xs)"
  let ?q = "(of_int ?S :: rat) / of_nat ?n"
  from ex have p: "0 < ldbl" and n64: "?n < 2^64" and np: "?n < 2 ^ ldbl" and A: "?A < 2 ^ ldbl"
    by (simp_all add: sums_exact_def)
  from n64 cnt have n: "unat cnt = ?n" by (simp add: unat_word_of_nat_64)
  from pos cnt have ne: "xs \<noteq> []" by auto
  then have npos: "(0::rat) < of_nat ?n" by simp
  from np have conv: "fl_round ldbl (of_nat ?n) = of_nat ?n" by (rule fl_round_of_nat)
  have mean: "mean_ns ldbl sm cnt = fl_round ldbl ?q"
    by (simp add: mean_ns_def n conv sm)
  let ?vals = "sint ` set xs"
  from ne have fin: "finite ?vals" and nemp: "?vals \<noteq> {}" by simp_all
  let ?a = "Min ?vals"
  let ?b = "Max ?vals"
  from fin nemp have "?a \<in> ?vals" by (rule Min_in)
  then obtain xa where xa: "xa \<in> set xs" "sint xa = ?a" by auto
  from fin nemp have "?b \<in> ?vals" by (rule Max_in)
  then obtain xb where xb: "xb \<in> set xs" "sint xb = ?b" by auto
  from abs_member_le_sum_list [OF xa(1), of sint] A xa(2) have amag: "\<bar>?a\<bar> < 2 ^ ldbl" by simp
  from abs_member_le_sum_list [OF xb(1), of sint] A xb(2) have bmag: "\<bar>?b\<bar> < 2 ^ ldbl" by simp
  have alow: "\<forall>x \<in> set xs. ?a \<le> sint x" using fin by simp
  have bhigh: "\<forall>x \<in> set xs. sint x \<le> ?b" using fin by simp
  from lo xa have mna: "sint mn \<le> ?a" by metis
  from hi xb have bmx: "?b \<le> sint mx" by metis
  from alow have "?a * int ?n \<le> ?S" by (rule sum_list_lower)
  then have "(of_int (?a * int ?n) :: rat) \<le> of_int ?S" by (simp only: of_int_le_iff)
  then have "(of_int ?a :: rat) * of_nat ?n \<le> of_int ?S" by simp
  with npos have aq: "of_int ?a \<le> ?q" by (simp add: pos_le_divide_eq)
  from bhigh have "?S \<le> ?b * int ?n" by (rule sum_list_upper)
  then have "(of_int ?S :: rat) \<le> of_int (?b * int ?n)" by (simp only: of_int_le_iff)
  then have "(of_int ?S :: rat) \<le> of_int ?b * of_nat ?n" by simp
  with npos have qb: "?q \<le> of_int ?b" by (simp add: pos_divide_le_eq)
  from p amag aq have "of_int ?a \<le> fl_round ldbl ?q" by (rule fl_round_ge)
  moreover from p bmag qb have "fl_round ldbl ?q \<le> of_int ?b" by (rule fl_round_le)
  moreover from mna have "(of_int (sint mn) :: rat) \<le> of_int ?a" by (simp only: of_int_le_iff)
  moreover from bmx have "(of_int ?b :: rat) \<le> of_int (sint mx)" by (simp only: of_int_le_iff)
  ultimately show ?thesis
    using aq qb unfolding mean_within_def mean
    by (simp add: n sm)
qed

lemma stat_invariantI:
  assumes cnt: "cnt = word_of_nat (length xs)"
    and sm: "sum_list (map (\<lambda>x. \<bar>sint x\<bar>) xs) < 2 ^ ldbl \<longrightarrow> sm = of_int (sum_list (map sint xs))"
    and lo: "\<forall>x \<in> set xs. sint mn \<le> sint x"
    and hi: "\<forall>x \<in> set xs. sint x \<le> sint mx"
  shows "stat_invariant ldbl mn mx sm cnt xs"
proof -
  have "stat_bounds mn mx cnt xs" using cnt lo hi by (rule stat_boundsI)
  moreover have "sm = of_int (sum_list (map sint xs)) \<and> mean_within ldbl mn mx sm cnt"
    if ex: "sums_exact ldbl xs" and pos: "0 < cnt"
  proof -
    from ex sm have s: "sm = of_int (sum_list (map sint xs))" by (simp add: sums_exact_def)
    with ex pos cnt lo hi show ?thesis by (simp add: mean_withinI)
  qed
  ultimately show ?thesis unfolding stat_invariant_def by blast
qed

text \<open>A sum that is not rounded: one step.\<close>

lemma exact_sum_step:
  assumes A: "sum_list (map (\<lambda>x. \<bar>sint x\<bar>) (xs @ [x])) < 2 ^ ldbl"
  shows "fl_round ldbl (of_int (sum_list (map sint xs)) + fl_round ldbl (of_int (sint x))) =
         of_int (sum_list (map sint (xs @ [x])))"
proof -
  have n: "0 \<le> sum_list (map (\<lambda>x. \<bar>sint x\<bar>) xs)" by (rule sum_list_nonneg) auto
  with A have x: "\<bar>sint x\<bar> < 2 ^ ldbl" by simp
  have "\<bar>sum_list (map sint (xs @ [x]))\<bar> \<le> sum_list (map (\<lambda>x. \<bar>sint x\<bar>) (xs @ [x]))"
    by (rule abs_sum_list_le)
  with A have s: "\<bar>sum_list (map sint (xs @ [x]))\<bar> < 2 ^ ldbl" by simp
  have "fl_round ldbl (of_int (sum_list (map sint xs)) + fl_round ldbl (of_int (sint x))) =
        fl_round ldbl (of_int (sum_list (map sint (xs @ [x]))))"
    by (simp only: fl_round_of_int [OF x]) simp
  also have "\<dots> = of_int (sum_list (map sint (xs @ [x])))"
    using s by (rule fl_round_of_int)
  finally show ?thesis .
qed

lemma exact_sum_prefix:
  "sum_list (map (\<lambda>x. \<bar>sint x\<bar>) (xs @ [x])) < (2::int) ^ ldbl \<Longrightarrow>
   sum_list (map (\<lambda>x. \<bar>sint x\<bar>) xs) < 2 ^ ldbl"
  by simp

text \<open>The three accumulators, sample by sample (induction from the last sample).\<close>

lemma stats_add_fold:
  "late_count (foldl (stats_add ldbl) stats_init xs) = word_of_nat (length xs) \<and>
   (\<forall>x \<in> set xs. sint (min_late_ns (foldl (stats_add ldbl) stats_init xs)) \<le> sint x) \<and>
   (\<forall>x \<in> set xs. sint x \<le> sint (max_late_ns (foldl (stats_add ldbl) stats_init xs)))"
proof (induction xs rule: rev_induct)
  case Nil
  show ?case by (simp add: stats_init_def)
next
  case (snoc x xs)
  then show ?case
    by (auto simp: stats_add_def word_sless_alt)
qed

lemma stats_add_sum:
  "sum_list (map (\<lambda>x. \<bar>sint x\<bar>) xs) < 2 ^ ldbl \<longrightarrow>
   sum_late_ns (foldl (stats_add ldbl) stats_init xs) = of_int (sum_list (map sint xs))"
proof (induction xs rule: rev_induct)
  case Nil
  show ?case by (simp add: stats_init_def)
next
  case (snoc x xs)
  show ?case
  proof
    assume A: "sum_list (map (\<lambda>x. \<bar>sint x\<bar>) (xs @ [x])) < 2 ^ ldbl"
    with snoc have "sum_late_ns (foldl (stats_add ldbl) stats_init xs) =
                    of_int (sum_list (map sint xs))"
      using exact_sum_prefix [OF A] by simp
    then show "sum_late_ns (foldl (stats_add ldbl) stats_init (xs @ [x])) =
               of_int (sum_list (map sint (xs @ [x])))"
      using exact_sum_step [OF A] by (simp add: stats_add_def)
  qed
qed

lemma interval_add_fold:
  "icount (foldl (interval_add ldbl) interval_init xs) = word_of_nat (length xs) \<and>
   (\<forall>x \<in> set xs. sint (imin_ns (foldl (interval_add ldbl) interval_init xs)) \<le> sint x) \<and>
   (\<forall>x \<in> set xs. sint x \<le> sint (imax_ns (foldl (interval_add ldbl) interval_init xs)))"
proof (induction xs rule: rev_induct)
  case Nil
  show ?case by (simp add: interval_init_def)
next
  case (snoc x xs)
  then show ?case
    by (auto simp: interval_add_def Let_def word_sless_alt)
qed

lemma interval_add_sum:
  "sum_list (map (\<lambda>x. \<bar>sint x\<bar>) xs) < 2 ^ ldbl \<longrightarrow>
   isum_ns (foldl (interval_add ldbl) interval_init xs) = of_int (sum_list (map sint xs))"
proof (induction xs rule: rev_induct)
  case Nil
  show ?case by (simp add: interval_init_def)
next
  case (snoc x xs)
  show ?case
  proof
    assume A: "sum_list (map (\<lambda>x. \<bar>sint x\<bar>) (xs @ [x])) < 2 ^ ldbl"
    with snoc have "isum_ns (foldl (interval_add ldbl) interval_init xs) =
                    of_int (sum_list (map sint xs))"
      using exact_sum_prefix [OF A] by simp
    then show "isum_ns (foldl (interval_add ldbl) interval_init (xs @ [x])) =
               of_int (sum_list (map sint (xs @ [x])))"
      using exact_sum_step [OF A] by (simp add: interval_add_def Let_def)
  qed
qed

lemma jitter_add_fold:
  "count (foldl (jitter_add ldbl) jitter_init xs) = word_of_nat (length xs) \<and>
   (\<forall>x \<in> set xs. sint (min_ns (foldl (jitter_add ldbl) jitter_init xs)) \<le> sint x) \<and>
   (\<forall>x \<in> set xs. sint x \<le> sint (max_ns (foldl (jitter_add ldbl) jitter_init xs)))"
proof (induction xs rule: rev_induct)
  case Nil
  show ?case by (simp add: jitter_init_def)
next
  case (snoc x xs)
  then show ?case
    by (auto simp: jitter_add_def Let_def word_sless_alt)
qed

lemma jitter_add_sum:
  "sum_list (map (\<lambda>x. \<bar>sint x\<bar>) xs) < 2 ^ ldbl \<longrightarrow>
   sum_ns (foldl (jitter_add ldbl) jitter_init xs) = of_int (sum_list (map sint xs))"
proof (induction xs rule: rev_induct)
  case Nil
  show ?case by (simp add: jitter_init_def)
next
  case (snoc x xs)
  show ?case
  proof
    assume A: "sum_list (map (\<lambda>x. \<bar>sint x\<bar>) (xs @ [x])) < 2 ^ ldbl"
    with snoc have "sum_ns (foldl (jitter_add ldbl) jitter_init xs) =
                    of_int (sum_list (map sint xs))"
      using exact_sum_prefix [OF A] by simp
    then show "sum_ns (foldl (jitter_add ldbl) jitter_init (xs @ [x])) =
               of_int (sum_list (map sint (xs @ [x])))"
      using exact_sum_step [OF A] by (simp add: jitter_add_def Let_def)
  qed
qed

text \<open>
  C4, as the code has it.  After \<^verbatim>\<open>stats_init\<close> (midi_pulse.c), \<^verbatim>\<open>interval_init\<close> or
  \<^verbatim>\<open>jitter_init\<close> (midi_stats.c) and one \<open>add\<close> for each sample of \<open>xs\<close>, in order:
  the count is the number of samples (fewer than \<open>2^64\<close>), and the minimum is at most
  and the maximum at least every sample.  When moreover the magnitudes of the samples
  add up to less than \<open>2^ldbl\<close> and there are fewer than \<open>2^ldbl\<close> samples, \<open>ldbl\<close>
  the number of significand bits of \<^verbatim>\<open>long double\<close>, then no sum was rounded, the sum
  is the sum of the samples, and with a positive count the mean, sum over count, lies
  between the minimum and the maximum.
\<close>

theorem stat_accumulators_invariant:
  "(let s = foldl (stats_add ldbl) stats_init xs
    in stat_invariant ldbl (min_late_ns s) (max_late_ns s) (sum_late_ns s) (late_count s) xs) \<and>
   (let s = foldl (interval_add ldbl) interval_init xs
    in stat_invariant ldbl (imin_ns s) (imax_ns s) (isum_ns s) (icount s) xs) \<and>
   (let s = foldl (jitter_add ldbl) jitter_init xs
    in stat_invariant ldbl (min_ns s) (max_ns s) (sum_ns s) (count s) xs)"
  unfolding Let_def
  using stats_add_fold [of ldbl xs] interval_add_fold [of ldbl xs] jitter_add_fold [of ldbl xs]
    stats_add_sum [of xs ldbl] interval_add_sum [of xs ldbl] jitter_add_sum [of xs ldbl]
  by (intro conjI stat_invariantI) blast+

text \<open>The three accumulators after the samples 5, -3 and 10 ns.\<close>

lemma stats_example_fold:
  "foldl (stats_add 64) stats_init [5, - 3, 10] =
   \<lparr>min_late_ns = - 3, max_late_ns = 10, sum_late_ns = 12, sum_abs_late_ns = 18,
    late_count = 3\<rparr>"
  by (simp add: stats_add_def stats_init_def INT64_MAX_def INT64_MIN_def fl_eval)

lemma interval_example_fold:
  "foldl (interval_add 64) interval_init [5, - 3, 10] =
   \<lparr>imin_ns = - 3, imax_ns = 10, isum_ns = 12, isum_sq_ns = 134, icount = 3\<rparr>"
  by (simp add: interval_add_def interval_init_def INT64_MAX_def INT64_MIN_def fl_eval)

lemma jitter_example_fold:
  "foldl (jitter_add 64) jitter_init [5, - 3, 10] =
   \<lparr>min_ns = - 3, max_ns = 10, sum_ns = 12, sum_abs_ns = 18, sum_sq_ns = 134, count = 3\<rparr>"
  by (simp add: jitter_add_def jitter_init_def INT64_MAX_def INT64_MIN_def fl_eval)

lemma sums_exact_example: "sums_exact 64 [5, - 3, 10]"
  by (simp add: sums_exact_def)

lemma mean_example: "mean_ns 64 12 3 = 4"
  by (simp add: mean_ns_def fl_eval)

theorem stat_accumulators_invariant_witness:
  "(let xs = [5, - 3, 10 :: i64]; s = foldl (stats_add 64) stats_init xs
    in sums_exact 64 xs \<and> length xs < 2^64 \<and> 0 < late_count s \<and>
       unat (late_count s) = 3 \<and>
       (\<forall>x \<in> set xs. min_late_ns s \<le>s x \<and> x \<le>s max_late_ns s) \<and>
       sum_late_ns s = 12 \<and> mean_ns 64 (sum_late_ns s) (late_count s) = 4 \<and>
       mean_within 64 (min_late_ns s) (max_late_ns s) (sum_late_ns s) (late_count s)) \<and>
   (let xs = [5, - 3, 10 :: i64]; s = foldl (interval_add 64) interval_init xs
    in sums_exact 64 xs \<and> length xs < 2^64 \<and> 0 < icount s \<and>
       unat (icount s) = 3 \<and>
       (\<forall>x \<in> set xs. imin_ns s \<le>s x \<and> x \<le>s imax_ns s) \<and>
       isum_ns s = 12 \<and> mean_ns 64 (isum_ns s) (icount s) = 4 \<and>
       mean_within 64 (imin_ns s) (imax_ns s) (isum_ns s) (icount s)) \<and>
   (let xs = [5, - 3, 10 :: i64]; s = foldl (jitter_add 64) jitter_init xs
    in sums_exact 64 xs \<and> length xs < 2^64 \<and> 0 < count s \<and>
       unat (count s) = 3 \<and>
       (\<forall>x \<in> set xs. min_ns s \<le>s x \<and> x \<le>s max_ns s) \<and>
       sum_ns s = 12 \<and> mean_ns 64 (sum_ns s) (count s) = 4 \<and>
       mean_within 64 (min_ns s) (max_ns s) (sum_ns s) (count s))"
proof -
  let ?xs = "[5, - 3, 10 :: i64]"
  let ?a = "foldl (stats_add 64) stats_init ?xs"
  let ?b = "foldl (interval_add 64) interval_init ?xs"
  let ?c = "foldl (jitter_add 64) jitter_init ?xs"
  have len: "length ?xs < 2^64" by simp
  have l3: "length ?xs = 3" by simp
  have sm: "(of_int (sum_list (map sint ?xs)) :: rat) = 12" by simp
  have pos: "0 < late_count ?a" "0 < icount ?b" "0 < count ?c"
    by (simp_all only: stats_example_fold interval_example_fold jitter_example_fold) simp_all
  note T = stat_accumulators_invariant [where ldbl = 64 and xs = ?xs]
  from T sums_exact_example len pos
  have a: "unat (late_count ?a) = length ?xs"
      "\<forall>x \<in> set ?xs. min_late_ns ?a \<le>s x \<and> x \<le>s max_late_ns ?a"
      "sum_late_ns ?a = of_int (sum_list (map sint ?xs))"
      "mean_within 64 (min_late_ns ?a) (max_late_ns ?a) (sum_late_ns ?a) (late_count ?a)"
    unfolding stat_invariant_def stat_bounds_def Let_def by blast+
  from T sums_exact_example len pos
  have b: "unat (icount ?b) = length ?xs"
      "\<forall>x \<in> set ?xs. imin_ns ?b \<le>s x \<and> x \<le>s imax_ns ?b"
      "isum_ns ?b = of_int (sum_list (map sint ?xs))"
      "mean_within 64 (imin_ns ?b) (imax_ns ?b) (isum_ns ?b) (icount ?b)"
    unfolding stat_invariant_def stat_bounds_def Let_def by blast+
  from T sums_exact_example len pos
  have c: "unat (count ?c) = length ?xs"
      "\<forall>x \<in> set ?xs. min_ns ?c \<le>s x \<and> x \<le>s max_ns ?c"
      "sum_ns ?c = of_int (sum_list (map sint ?xs))"
      "mean_within 64 (min_ns ?c) (max_ns ?c) (sum_ns ?c) (count ?c)"
    unfolding stat_invariant_def stat_bounds_def Let_def by blast+
  have ma: "mean_ns 64 (sum_late_ns ?a) (late_count ?a) = 4"
    by (simp only: stats_example_fold) (simp add: mean_example)
  have mb: "mean_ns 64 (isum_ns ?b) (icount ?b) = 4"
    by (simp only: interval_example_fold) (simp add: mean_example)
  have mc: "mean_ns 64 (sum_ns ?c) (count ?c) = 4"
    by (simp only: jitter_example_fold) (simp add: mean_example)
  note a' = a(1) [unfolded l3] a(3) [unfolded sm]
  note b' = b(1) [unfolded l3] b(3) [unfolded sm]
  note c' = c(1) [unfolded l3] c(3) [unfolded sm]
  from sums_exact_example len pos a' a(2) a(4) ma b' b(2) b(4) mb c' c(2) c(4) mc
  show ?thesis unfolding Let_def by (intro conjI)
qed

text \<open>
  The mean against the claim as it was written (within the extremes for every sample
  sequence).  With the 64-bit significand of the x87 \<^verbatim>\<open>long double\<close>, three samples
  of \<open>2^63 - 1\<close> ns: the third addition rounds the sum down to an even number, and the
  mean is the minimum less one half.  Where \<^verbatim>\<open>long double\<close> is \<^verbatim>\<open>double\<close>, one sample
  of \<open>2^53 + 1\<close> ns: the conversion of the sample rounds, and the mean is the minimum
  less one.
\<close>

lemma stats_overflow_fold:
  "foldl (stats_add 64) stats_init [INT64_MAX, INT64_MAX, INT64_MAX] =
   \<lparr>min_late_ns = INT64_MAX, max_late_ns = INT64_MAX, sum_late_ns = 27670116110564327420,
    sum_abs_late_ns = 27670116110564327420, late_count = 3\<rparr>"
  by (simp add: stats_add_def stats_init_def INT64_MAX_def INT64_MIN_def fl_eval)

lemma mean_overflow: "mean_ns 64 27670116110564327420 3 = 18446744073709551613 / 2"
  by (simp add: mean_ns_def fl_eval)

lemma interval_overflow_fold:
  "foldl (interval_add 64) interval_init [INT64_MAX, INT64_MAX, INT64_MAX] =
   \<lparr>imin_ns = INT64_MAX, imax_ns = INT64_MAX, isum_ns = 27670116110564327420,
    isum_sq_ns = 255211775190703847542190723352697503744, icount = 3\<rparr>"
  by (simp add: interval_add_def interval_init_def INT64_MAX_def INT64_MIN_def fl_eval)

lemma jitter_double_fold:
  "foldl (jitter_add 53) jitter_init [9007199254740993] =
   \<lparr>min_ns = 9007199254740993, max_ns = 9007199254740993, sum_ns = 9007199254740992,
    sum_abs_ns = 9007199254740992, sum_sq_ns = 81129638414606681695789005144064,
    count = 1\<rparr>"
  by (simp add: jitter_add_def jitter_init_def INT64_MAX_def INT64_MIN_def fl_eval)

lemma mean_double: "mean_ns 53 9007199254740992 1 = 9007199254740992"
  by (simp add: mean_ns_def fl_eval)

theorem stat_mean_below_min_counterexample:
  "late_count (foldl (stats_add 64) stats_init [INT64_MAX, INT64_MAX, INT64_MAX]) = 3 \<and>
   sint (min_late_ns (foldl (stats_add 64) stats_init [INT64_MAX, INT64_MAX, INT64_MAX])) =
     9223372036854775807 \<and>
   sum_late_ns (foldl (stats_add 64) stats_init [INT64_MAX, INT64_MAX, INT64_MAX]) =
     27670116110564327420 \<and>
   mean_ns 64 (sum_late_ns (foldl (stats_add 64) stats_init [INT64_MAX, INT64_MAX, INT64_MAX]))
     (late_count (foldl (stats_add 64) stats_init [INT64_MAX, INT64_MAX, INT64_MAX])) =
     18446744073709551613 / 2 \<and>
   mean_ns 64 (sum_late_ns (foldl (stats_add 64) stats_init [INT64_MAX, INT64_MAX, INT64_MAX]))
     (late_count (foldl (stats_add 64) stats_init [INT64_MAX, INT64_MAX, INT64_MAX])) <
     of_int (sint (min_late_ns
       (foldl (stats_add 64) stats_init [INT64_MAX, INT64_MAX, INT64_MAX]))) \<and>
   sum_late_ns (foldl (stats_add 64) stats_init [INT64_MAX, INT64_MAX, INT64_MAX]) /
     of_nat (unat (late_count
       (foldl (stats_add 64) stats_init [INT64_MAX, INT64_MAX, INT64_MAX]))) <
     of_int (sint (min_late_ns
       (foldl (stats_add 64) stats_init [INT64_MAX, INT64_MAX, INT64_MAX]))) \<and>
   mean_ns 64 (isum_ns (foldl (interval_add 64) interval_init [INT64_MAX, INT64_MAX, INT64_MAX]))
     (icount (foldl (interval_add 64) interval_init [INT64_MAX, INT64_MAX, INT64_MAX])) <
     of_int (sint (imin_ns
       (foldl (interval_add 64) interval_init [INT64_MAX, INT64_MAX, INT64_MAX]))) \<and>
   count (foldl (jitter_add 53) jitter_init [9007199254740993]) = 1 \<and>
   sint (min_ns (foldl (jitter_add 53) jitter_init [9007199254740993])) = 9007199254740993 \<and>
   sum_ns (foldl (jitter_add 53) jitter_init [9007199254740993]) = 9007199254740992 \<and>
   mean_ns 53 (sum_ns (foldl (jitter_add 53) jitter_init [9007199254740993]))
     (count (foldl (jitter_add 53) jitter_init [9007199254740993])) = 9007199254740992 \<and>
   mean_ns 53 (sum_ns (foldl (jitter_add 53) jitter_init [9007199254740993]))
     (count (foldl (jitter_add 53) jitter_init [9007199254740993])) <
     of_int (sint (min_ns (foldl (jitter_add 53) jitter_init [9007199254740993])))"
  unfolding stats_overflow_fold interval_overflow_fold jitter_double_fold
  by (simp add: mean_overflow mean_double INT64_MAX_def)

section \<open>Series tracker: the event handler\<close>

text \<open>
  C5.  A qualifying event with hardware time stamp zero adds one to
  \<^verbatim>\<open>untimestamped_events\<close>, leaves \<^verbatim>\<open>timestamped_events\<close>, the timestamp-only
  series and the lateness accumulator as they were, and feeds the effective-time series
  with the arrival time stamp.  A qualifying event with a nonzero hardware time stamp
  feeds the effective-time series and the timestamp-only series with the hardware time
  stamp, adds the lateness \<^verbatim>\<open>delta_ns_from_host(arrival, hardware)\<close> to the lateness
  accumulator and adds one to \<^verbatim>\<open>timestamped_events\<close>.  Either way \<^verbatim>\<open>events_seen\<close>
  grows by one.
\<close>

theorem on_matching_event_timestamp_cases:
  "(packet_timestamp = 0 \<longrightarrow>
      untimestamped_events (on_matching_event ldbl tb state packet_timestamp arrival_timestamp) =
        untimestamped_events state + 1 \<and>
      timestamped_events (on_matching_event ldbl tb state packet_timestamp arrival_timestamp) =
        timestamped_events state \<and>
      timestamped_series (on_matching_event ldbl tb state packet_timestamp arrival_timestamp) =
        timestamped_series state \<and>
      arrival_vs_timestamp (on_matching_event ldbl tb state packet_timestamp arrival_timestamp) =
        arrival_vs_timestamp state \<and>
      effective_series (on_matching_event ldbl tb state packet_timestamp arrival_timestamp) =
        series_add_event ldbl tb (effective_series state) arrival_timestamp) \<and>
   (packet_timestamp \<noteq> 0 \<longrightarrow>
      effective_series (on_matching_event ldbl tb state packet_timestamp arrival_timestamp) =
        series_add_event ldbl tb (effective_series state) packet_timestamp \<and>
      timestamped_series (on_matching_event ldbl tb state packet_timestamp arrival_timestamp) =
        series_add_event ldbl tb (timestamped_series state) packet_timestamp \<and>
      arrival_vs_timestamp (on_matching_event ldbl tb state packet_timestamp arrival_timestamp) =
        jitter_add ldbl (arrival_vs_timestamp state)
          (delta_ns_from_host tb arrival_timestamp packet_timestamp) \<and>
      timestamped_events (on_matching_event ldbl tb state packet_timestamp arrival_timestamp) =
        timestamped_events state + 1 \<and>
      untimestamped_events (on_matching_event ldbl tb state packet_timestamp arrival_timestamp) =
        untimestamped_events state) \<and>
   events_seen (on_matching_event ldbl tb state packet_timestamp arrival_timestamp) =
     events_seen state + 1 \<and>
   cfg (on_matching_event ldbl tb state packet_timestamp arrival_timestamp) = cfg state"
  by (simp add: on_matching_event_def Let_def)

theorem on_matching_event_timestamp_cases_witness:
  "untimestamped_events
     (on_matching_event 64 \<lparr>numer = 1, denom = 1\<rparr>
        (runtime_init \<lparr>channel = 1, cfg_count = 0, report_every = 100\<rparr>) 0 1000) = 1 \<and>
   timestamped_events
     (on_matching_event 64 \<lparr>numer = 1, denom = 1\<rparr>
        (runtime_init \<lparr>channel = 1, cfg_count = 0, report_every = 100\<rparr>) 0 1000) = 0 \<and>
   previous_timestamp (effective_series
     (on_matching_event 64 \<lparr>numer = 1, denom = 1\<rparr>
        (runtime_init \<lparr>channel = 1, cfg_count = 0, report_every = 100\<rparr>) 0 1000)) = 1000 \<and>
   timestamped_events
     (on_matching_event 64 \<lparr>numer = 1, denom = 1\<rparr>
        (runtime_init \<lparr>channel = 1, cfg_count = 0, report_every = 100\<rparr>) 900 1000) = 1 \<and>
   previous_timestamp (effective_series
     (on_matching_event 64 \<lparr>numer = 1, denom = 1\<rparr>
        (runtime_init \<lparr>channel = 1, cfg_count = 0, report_every = 100\<rparr>) 900 1000)) = 900 \<and>
   previous_timestamp (timestamped_series
     (on_matching_event 64 \<lparr>numer = 1, denom = 1\<rparr>
        (runtime_init \<lparr>channel = 1, cfg_count = 0, report_every = 100\<rparr>) 900 1000)) = 900 \<and>
   sum_ns (arrival_vs_timestamp
     (on_matching_event 64 \<lparr>numer = 1, denom = 1\<rparr>
        (runtime_init \<lparr>channel = 1, cfg_count = 0, report_every = 100\<rparr>) 900 1000)) = 100"
proof -
  let ?tb = "\<lparr>numer = 1, denom = 1\<rparr>"
  let ?st = "runtime_init \<lparr>channel = 1, cfg_count = 0, report_every = 100\<rparr>"
  have z: "(0::u64) = 0" and nz: "(900::u64) \<noteq> 0" by simp_all
  have d: "sint (delta_ns_from_host ?tb 1000 900) = 100"
    by (simp add: delta_ns_from_host_def host_to_ns_def)
  from on_matching_event_timestamp_cases [of 0 64 ?tb ?st 1000] z
  have a: "untimestamped_events (on_matching_event 64 ?tb ?st 0 1000) = untimestamped_events ?st + 1"
    "timestamped_events (on_matching_event 64 ?tb ?st 0 1000) = timestamped_events ?st"
    "effective_series (on_matching_event 64 ?tb ?st 0 1000) =
       series_add_event 64 ?tb (effective_series ?st) 1000"
    by blast+
  from on_matching_event_timestamp_cases [of 900 64 ?tb ?st 1000] nz
  have b: "timestamped_events (on_matching_event 64 ?tb ?st 900 1000) = timestamped_events ?st + 1"
    "effective_series (on_matching_event 64 ?tb ?st 900 1000) =
       series_add_event 64 ?tb (effective_series ?st) 900"
    "timestamped_series (on_matching_event 64 ?tb ?st 900 1000) =
       series_add_event 64 ?tb (timestamped_series ?st) 900"
    "arrival_vs_timestamp (on_matching_event 64 ?tb ?st 900 1000) =
       jitter_add 64 (arrival_vs_timestamp ?st) (delta_ns_from_host ?tb 1000 900)"
    by blast+
  show ?thesis
    unfolding a b
    by (simp add: runtime_init_def series_init_def series_add_event_def jitter_add_def
          jitter_init_def d Let_def fl_round_numeral fl_round_0)
qed

section \<open>Series tracker: consistency of the counters\<close>

text \<open>
  The counters are \<^verbatim>\<open>uint64_t\<close>; the equations are equations of 64-bit words.
\<close>

definition series_consistent :: "SeriesStats \<Rightarrow> bool" where
  "series_consistent s \<longleftrightarrow>
     intervals_seen s = icount (interval s) \<and>
     intervals_seen s = count (jitter s) \<and>
     (have_previous s \<longrightarrow> series_events_seen s = intervals_seen s + 1)"

definition counters_consistent :: "RuntimeState \<Rightarrow> bool" where
  "counters_consistent state \<longleftrightarrow>
     events_seen state = timestamped_events state + untimestamped_events state \<and>
     series_consistent (effective_series state) \<and>
     series_consistent (timestamped_series state)"

text \<open>
  The receiver after the qualifying events \<open>evs\<close>, each a pair of the packet's time
  stamp and the arrival time stamp, from the state \<^verbatim>\<open>main\<close> sets up.
\<close>

definition after_events :: "nat \<Rightarrow> timebase \<Rightarrow> Config \<Rightarrow> (u64 \<times> u64) list \<Rightarrow> RuntimeState" where
  "after_events ldbl tb c evs =
     foldl (\<lambda>state (packet_timestamp, arrival_timestamp).
              on_matching_event ldbl tb state packet_timestamp arrival_timestamp)
       (runtime_init c) evs"

text \<open>
  \<open>series_consistent\<close> alone is not kept by \<^verbatim>\<open>series_add_event\<close> from a state no
  run reaches (no previous time stamp, yet intervals counted).  The proof carries the
  missing fact along: a series without a previous time stamp has counted no interval.
\<close>

definition series_fresh :: "SeriesStats \<Rightarrow> bool" where
  "series_fresh s \<longleftrightarrow> (\<not> have_previous s \<longrightarrow> intervals_seen s = 0)"

lemma series_init_consistent: "series_consistent series_init \<and> series_fresh series_init"
  by (simp add: series_consistent_def series_fresh_def series_init_def interval_init_def
        jitter_init_def)

lemma series_add_event_have_previous: "have_previous (series_add_event ldbl tb s t)"
  by (simp add: series_add_event_def Let_def)

lemma series_add_event_consistent:
  assumes "series_consistent s" and "series_fresh s"
  shows "series_consistent (series_add_event ldbl tb s t) \<and> series_fresh (series_add_event ldbl tb s t)"
proof (cases "have_previous s")
  case False
  with assms show ?thesis
    by (auto simp: series_consistent_def series_fresh_def series_add_event_def)
next
  case True
  with assms show ?thesis
    by (auto simp: series_consistent_def series_fresh_def series_add_event_def Let_def
          interval_add_def jitter_add_def)
qed

definition counters_inductive :: "RuntimeState \<Rightarrow> bool" where
  "counters_inductive state \<longleftrightarrow>
     counters_consistent state \<and>
     series_fresh (effective_series state) \<and> series_fresh (timestamped_series state)"

lemma runtime_init_inductive: "counters_inductive (runtime_init c)"
  by (simp add: counters_inductive_def counters_consistent_def runtime_init_def
        series_init_consistent)

lemma on_matching_event_inductive:
  assumes inv: "counters_inductive state"
  shows "counters_inductive (on_matching_event ldbl tb state packet_timestamp arrival_timestamp)"
proof -
  let ?r = "on_matching_event ldbl tb state packet_timestamp arrival_timestamp"
  from inv have e: "series_consistent (effective_series state)" "series_fresh (effective_series state)"
    and t: "series_consistent (timestamped_series state)" "series_fresh (timestamped_series state)"
    and n: "events_seen state = timestamped_events state + untimestamped_events state"
    by (simp_all add: counters_inductive_def counters_consistent_def)
  have "events_seen ?r = timestamped_events ?r + untimestamped_events ?r"
    using n by (simp add: on_matching_event_def Let_def)
  moreover
  have "series_consistent (effective_series ?r) \<and> series_fresh (effective_series ?r)"
    using e by (simp add: on_matching_event_def Let_def series_add_event_consistent)
  moreover
  have "series_consistent (timestamped_series ?r) \<and> series_fresh (timestamped_series ?r)"
    using t by (simp add: on_matching_event_def Let_def series_add_event_consistent)
  ultimately show ?thesis
    by (simp add: counters_inductive_def counters_consistent_def)
qed

lemma after_events_inductive: "counters_inductive (after_events ldbl tb c evs)"
proof (induction evs rule: rev_induct)
  case Nil
  show ?case by (simp add: after_events_def runtime_init_inductive)
next
  case (snoc ev evs)
  then show ?case
    by (cases ev) (simp add: after_events_def on_matching_event_inductive)
qed

text \<open>
  C9.  In every run of the receiver the counters are consistent before and after each
  call of \<^verbatim>\<open>on_matching_event\<close>: the state \<^verbatim>\<open>main\<close> starts from is consistent, and
  so is the state after any sequence of qualifying events and after one more.
  Consistent means: \<^verbatim>\<open>events_seen\<close> is the sum of \<^verbatim>\<open>timestamped_events\<close> and
  \<^verbatim>\<open>untimestamped_events\<close>; in both series \<^verbatim>\<open>intervals_seen\<close> is the count of the
  interval accumulator and of the jitter accumulator, and once the series has a previous
  time stamp its \<^verbatim>\<open>events_seen\<close> is \<^verbatim>\<open>intervals_seen + 1\<close>.
\<close>

theorem on_matching_event_counters_consistent:
  "counters_consistent (after_events ldbl tb c evs) \<and>
   counters_consistent
     (on_matching_event ldbl tb (after_events ldbl tb c evs) packet_timestamp arrival_timestamp)"
  using after_events_inductive [of ldbl tb c evs]
    on_matching_event_inductive [of "after_events ldbl tb c evs" ldbl tb packet_timestamp arrival_timestamp]
  by (simp add: counters_inductive_def)

theorem on_matching_event_counters_consistent_witness:
  "after_events 64 \<lparr>numer = 1, denom = 1\<rparr> \<lparr>channel = 1, cfg_count = 0, report_every = 100\<rparr>
     [(900, 1000)] =
   on_matching_event 64 \<lparr>numer = 1, denom = 1\<rparr>
     (runtime_init \<lparr>channel = 1, cfg_count = 0, report_every = 100\<rparr>) 900 1000 \<and>
   counters_consistent
     (on_matching_event 64 \<lparr>numer = 1, denom = 1\<rparr>
        (on_matching_event 64 \<lparr>numer = 1, denom = 1\<rparr>
           (runtime_init \<lparr>channel = 1, cfg_count = 0, report_every = 100\<rparr>) 900 1000)
        0 2000) \<and>
   have_previous (effective_series
     (on_matching_event 64 \<lparr>numer = 1, denom = 1\<rparr>
        (on_matching_event 64 \<lparr>numer = 1, denom = 1\<rparr>
           (runtime_init \<lparr>channel = 1, cfg_count = 0, report_every = 100\<rparr>) 900 1000)
        0 2000)) \<and>
   series_events_seen (effective_series
     (on_matching_event 64 \<lparr>numer = 1, denom = 1\<rparr>
        (on_matching_event 64 \<lparr>numer = 1, denom = 1\<rparr>
           (runtime_init \<lparr>channel = 1, cfg_count = 0, report_every = 100\<rparr>) 900 1000)
        0 2000)) = 2"
proof -
  let ?tb = "\<lparr>numer = 1, denom = 1\<rparr>"
  let ?c = "\<lparr>channel = 1, cfg_count = 0, report_every = 100\<rparr>"
  let ?s1 = "on_matching_event 64 ?tb (runtime_init ?c) 900 1000"
  let ?s2 = "on_matching_event 64 ?tb ?s1 0 2000"
  have a: "after_events 64 ?tb ?c [(900, 1000)] = ?s1"
    by (simp add: after_events_def)
  from on_matching_event_counters_consistent [of 64 ?tb ?c "[(900, 1000)]" 0 2000]
  have i2: "counters_consistent ?s2" unfolding a by blast
  have hp: "have_previous (effective_series ?s2)"
    by (simp add: on_matching_event_def Let_def series_add_event_have_previous)
  have "series_events_seen (effective_series ?s2) = 2"
    by (simp add: on_matching_event_def Let_def runtime_init_def series_init_def
          series_add_event_def)
  with a i2 hp show ?thesis by (intro conjI)
qed

text \<open>
  The remark above, at a state no run reaches: five intervals counted and no previous
  time stamp.  One event later the series has a previous time stamp, one event seen and
  still five intervals.
\<close>

lemma series_consistent_alone_not_kept:
  "series_consistent
     (series_init\<lparr>intervals_seen := 5, interval := interval_init\<lparr>icount := 5\<rparr>,
                  jitter := jitter_init\<lparr>count := 5\<rparr>\<rparr>) \<and>
   \<not> series_consistent
     (series_add_event ldbl tb
        (series_init\<lparr>intervals_seen := 5, interval := interval_init\<lparr>icount := 5\<rparr>,
                     jitter := jitter_init\<lparr>count := 5\<rparr>\<rparr>) t)"
  by (simp add: series_consistent_def series_init_def series_add_event_def)

section \<open>Series tracker: reference interval and jitter samples\<close>

text \<open>
  A series fed with the time stamps \<open>ts\<close>, from \<^verbatim>\<open>series_init\<close>.
\<close>

definition series_feed :: "nat \<Rightarrow> timebase \<Rightarrow> u64 list \<Rightarrow> SeriesStats" where
  "series_feed ldbl tb ts = foldl (series_add_event ldbl tb) series_init ts"

text \<open>
  The successive interval samples of the time stamps \<open>ts\<close> that follow the time stamp
  \<open>prev\<close>: each one is \<^verbatim>\<open>delta_ns_from_host\<close> of a time stamp and the one before it.
\<close>

fun interval_samples :: "timebase \<Rightarrow> u64 \<Rightarrow> u64 list \<Rightarrow> i64 list" where
  "interval_samples tb prev [] = []"
| "interval_samples tb prev (t # ts) = delta_ns_from_host tb t prev # interval_samples tb t ts"

text \<open>
  The jitter samples that belong to the interval samples \<open>ds\<close>: the distance of each
  one, the first included, from the first.
\<close>

definition jitter_samples :: "i64 list \<Rightarrow> i64 list" where
  "jitter_samples ds = map (\<lambda>d. d - hd ds) ds"

lemma interval_samples_snoc:
  "interval_samples tb prev (ts @ [t]) =
   interval_samples tb prev ts @ [delta_ns_from_host tb t (last (prev # ts))]"
  by (induction ts arbitrary: prev) auto

lemma interval_samples_length: "length (interval_samples tb prev ts) = length ts"
  by (induction ts arbitrary: prev) auto

lemma jitter_samples_snoc:
  "ds \<noteq> [] \<Longrightarrow> jitter_samples (ds @ [d]) = jitter_samples ds @ [d - hd ds]"
  by (simp add: jitter_samples_def)

text \<open>The state of a series after a first time stamp and any number of further ones.\<close>

lemma series_feed_state:
  "have_previous (series_feed ldbl tb (t0 # ts)) \<and>
   previous_timestamp (series_feed ldbl tb (t0 # ts)) = last (t0 # ts) \<and>
   have_reference_interval (series_feed ldbl tb (t0 # ts)) = (ts \<noteq> []) \<and>
   (ts \<noteq> [] \<longrightarrow>
      reference_interval_ns (series_feed ldbl tb (t0 # ts)) = hd (interval_samples tb t0 ts)) \<and>
   interval (series_feed ldbl tb (t0 # ts)) =
     foldl (interval_add ldbl) interval_init (interval_samples tb t0 ts) \<and>
   jitter (series_feed ldbl tb (t0 # ts)) =
     foldl (jitter_add ldbl) jitter_init (jitter_samples (interval_samples tb t0 ts))"
proof (induction ts rule: rev_induct)
  case Nil
  show ?case
    by (simp add: series_feed_def series_add_event_def series_init_def jitter_samples_def)
next
  case (snoc t ts)
  let ?s = "series_feed ldbl tb (t0 # ts)"
  have step: "series_feed ldbl tb (t0 # ts @ [t]) = series_add_event ldbl tb ?s t"
    by (simp add: series_feed_def)
  show ?case
  proof (cases "ts = []")
    case True
    with snoc show ?thesis
      unfolding step
      by (simp add: series_add_event_def Let_def jitter_samples_def)
  next
    case False
    then have ne: "interval_samples tb t0 ts \<noteq> []"
      using interval_samples_length [of tb t0 ts] by auto
    from False snoc show ?thesis
      unfolding step
      by (simp add: series_add_event_def Let_def interval_samples_snoc
            jitter_samples_snoc [OF ne] ne)
  qed
qed

text \<open>
  C2, as the code has it.  In each series the first measured interval (between the first
  and the second event) becomes the reference interval and stays it, and every interval,
  the first included, gives one jitter sample: the interval minus the reference.  The
  first jitter sample is therefore 0, and the jitter accumulator has as many samples as
  the interval accumulator.  A series whose successive interval samples are
  100 ms, 100 ms, 130 ms gets the jitter samples 0 ms, 0 ms, 30 ms.
\<close>

theorem series_jitter_from_first_interval:
  "(ts \<noteq> [] \<longrightarrow>
      have_reference_interval (series_feed ldbl tb (t0 # ts)) \<and>
      reference_interval_ns (series_feed ldbl tb (t0 # ts)) = hd (interval_samples tb t0 ts) \<and>
      hd (jitter_samples (interval_samples tb t0 ts)) = 0) \<and>
   interval (series_feed ldbl tb (t0 # ts)) =
     foldl (interval_add ldbl) interval_init (interval_samples tb t0 ts) \<and>
   jitter (series_feed ldbl tb (t0 # ts)) =
     foldl (jitter_add ldbl) jitter_init (jitter_samples (interval_samples tb t0 ts)) \<and>
   length (jitter_samples (interval_samples tb t0 ts)) = length (interval_samples tb t0 ts) \<and>
   (interval_samples tb t0 ts = [100000000, 100000000, 130000000] \<longrightarrow>
      reference_interval_ns (series_feed ldbl tb (t0 # ts)) = 100000000 \<and>
      jitter (series_feed ldbl tb (t0 # ts)) = foldl (jitter_add ldbl) jitter_init [0, 0, 30000000])"
proof -
  note st = series_feed_state [of ldbl tb t0 ts]
  have a: "ts \<noteq> [] \<longrightarrow>
      have_reference_interval (series_feed ldbl tb (t0 # ts)) \<and>
      reference_interval_ns (series_feed ldbl tb (t0 # ts)) = hd (interval_samples tb t0 ts) \<and>
      hd (jitter_samples (interval_samples tb t0 ts)) = 0"
  proof
    assume ne: "ts \<noteq> []"
    then have "interval_samples tb t0 ts \<noteq> []"
      using interval_samples_length [of tb t0 ts] by auto
    then have "hd (jitter_samples (interval_samples tb t0 ts)) = 0"
      by (simp add: jitter_samples_def hd_map)
    with st ne show "have_reference_interval (series_feed ldbl tb (t0 # ts)) \<and>
      reference_interval_ns (series_feed ldbl tb (t0 # ts)) = hd (interval_samples tb t0 ts) \<and>
      hd (jitter_samples (interval_samples tb t0 ts)) = 0"
      by simp
  qed
  have b: "length (jitter_samples (interval_samples tb t0 ts)) =
           length (interval_samples tb t0 ts)"
    by (simp add: jitter_samples_def)
  have c: "interval_samples tb t0 ts = [100000000, 100000000, 130000000] \<longrightarrow>
      reference_interval_ns (series_feed ldbl tb (t0 # ts)) = 100000000 \<and>
      jitter (series_feed ldbl tb (t0 # ts)) = foldl (jitter_add ldbl) jitter_init [0, 0, 30000000]"
  proof
    assume ds: "interval_samples tb t0 ts = [100000000, 100000000, 130000000]"
    then have "ts \<noteq> []" by auto
    with st have "reference_interval_ns (series_feed ldbl tb (t0 # ts)) = hd (interval_samples tb t0 ts)"
      by simp
    then have r: "reference_interval_ns (series_feed ldbl tb (t0 # ts)) = 100000000"
      by (simp add: ds)
    have "jitter_samples [100000000, 100000000, 130000000] = [0, 0, 30000000]"
      by (simp add: jitter_samples_def)
    with st ds have "jitter (series_feed ldbl tb (t0 # ts)) = foldl (jitter_add ldbl) jitter_init [0, 0, 30000000]"
      by simp
    with r show "reference_interval_ns (series_feed ldbl tb (t0 # ts)) = 100000000 \<and>
      jitter (series_feed ldbl tb (t0 # ts)) = foldl (jitter_add ldbl) jitter_init [0, 0, 30000000]"
      by simp
  qed
  from st a b c show ?thesis by blast
qed

lemma host_to_ns_unit: "host_to_ns \<lparr>numer = 1, denom = 1\<rparr> t = t"
  by (simp add: host_to_ns_exact ticks_to_ns_exact_def)

lemma interval_samples_example:
  "interval_samples \<lparr>numer = 1, denom = 1\<rparr> 0 [100000000, 200000000, 330000000] =
   [100000000, 100000000, 130000000]"
  by (simp add: delta_ns_from_host_def host_to_ns_unit)

theorem series_jitter_from_first_interval_witness:
  "[100000000, 200000000, 330000000 :: u64] \<noteq> [] \<and>
   interval_samples \<lparr>numer = 1, denom = 1\<rparr> 0 [100000000, 200000000, 330000000] =
     [100000000, 100000000, 130000000] \<and>
   reference_interval_ns
     (series_feed 64 \<lparr>numer = 1, denom = 1\<rparr> [0, 100000000, 200000000, 330000000]) = 100000000 \<and>
   jitter (series_feed 64 \<lparr>numer = 1, denom = 1\<rparr> [0, 100000000, 200000000, 330000000]) =
     foldl (jitter_add 64) jitter_init [0, 0, 30000000] \<and>
   count (jitter (series_feed 64 \<lparr>numer = 1, denom = 1\<rparr> [0, 100000000, 200000000, 330000000])) = 3"
proof -
  let ?tb = "\<lparr>numer = 1, denom = 1\<rparr>"
  let ?ts = "[100000000, 200000000, 330000000 :: u64]"
  have ne: "?ts \<noteq> []" by simp
  from series_jitter_from_first_interval [of ?ts 64 ?tb 0] interval_samples_example
  have r: "reference_interval_ns (series_feed 64 ?tb (0 # ?ts)) = 100000000"
    and j: "jitter (series_feed 64 ?tb (0 # ?ts)) = foldl (jitter_add 64) jitter_init [0, 0, 30000000]"
    by blast+
  have "count (foldl (jitter_add 64) jitter_init [0, 0, 30000000]) = 3"
    by (simp add: jitter_add_def jitter_init_def Let_def)
  with ne interval_samples_example r j show ?thesis by simp
qed

text \<open>
  The same series against the claim as it was written (jitter only from the second
  interval on, samples 0 ms and 30 ms): the jitter accumulator holds three samples, not
  two, and is not the accumulator of the two samples.
\<close>

theorem series_jitter_two_samples_counterexample:
  "interval_samples \<lparr>numer = 1, denom = 1\<rparr> 0 [100000000, 200000000, 330000000] =
     [100000000, 100000000, 130000000] \<and>
   count (jitter (series_feed 64 \<lparr>numer = 1, denom = 1\<rparr> [0, 100000000, 200000000, 330000000])) = 3 \<and>
   count (foldl (jitter_add 64) jitter_init [0, 30000000]) = 2 \<and>
   jitter (series_feed 64 \<lparr>numer = 1, denom = 1\<rparr> [0, 100000000, 200000000, 330000000]) \<noteq>
     foldl (jitter_add 64) jitter_init [0, 30000000]"
proof -
  let ?s = "series_feed 64 \<lparr>numer = 1, denom = 1\<rparr> [0, 100000000, 200000000, 330000000]"
  have j: "jitter ?s = foldl (jitter_add 64) jitter_init (jitter_samples [100000000, 100000000, 130000000])"
    using series_feed_state [of 64 "\<lparr>numer = 1, denom = 1\<rparr>" 0 "[100000000, 200000000, 330000000]"]
    by (simp only: interval_samples_example)
  have c3: "count (jitter ?s) = 3"
    unfolding j by (simp add: jitter_samples_def jitter_add_def jitter_init_def Let_def)
  have c2: "count (foldl (jitter_add 64) jitter_init [0, 30000000]) = 2"
    by (simp add: jitter_add_def jitter_init_def Let_def)
  from c3 c2 have "jitter ?s \<noteq> foldl (jitter_add 64) jitter_init [0, 30000000]"
    by auto
  with interval_samples_example c3 c2 show ?thesis by (intro conjI)
qed

section \<open>Classifier: note-on events on the configured channel\<close>

lemma process_packet_bytes_end:
  "length data \<le> i \<Longrightarrow> process_packet_bytes ldbl tb state pts ats data i = state"
  by (simp add: process_packet_bytes.simps)

lemma scan_pass_one_note_on:
  "scan_pass c [0x91, 0x3C, v] 0 = Next 3 (c = 2 \<and> v > 0)"
  by (simp add: scan_pass_def midi_channel_message_length_def Let_def)

lemma process_one_note_on:
  "process_packet_bytes ldbl tb state pts ats [0x91, 0x3C, v] 0 =
     (if channel (cfg state) = 2 \<and> v > 0 then on_matching_event ldbl tb state pts ats else state)"
  by (subst process_packet_bytes.simps)
     (simp add: scan_pass_one_note_on process_packet_bytes_end)

text \<open>
  C3.  The buffer \<^verbatim>\<open>[0x91, 0x3C, 0x64]\<close> (note-on, channel 2, note 60, velocity 100)
  with channel filter 2 makes the classifier call \<^verbatim>\<open>on_matching_event\<close> exactly once
  (\<^verbatim>\<open>events_seen\<close> grows by one); with channel filter 1 it makes no call and leaves
  the state as it was; the buffer \<^verbatim>\<open>[0x91, 0x3C, 0x00]\<close> (velocity 0) makes no call
  whatever the channel filter is.
\<close>

theorem process_packet_bytes_note_on_filter:
  "(channel (cfg state) = 2 \<longrightarrow>
      process_packet_bytes ldbl tb state pts ats [0x91, 0x3C, 0x64] 0 =
        on_matching_event ldbl tb state pts ats \<and>
      events_seen (process_packet_bytes ldbl tb state pts ats [0x91, 0x3C, 0x64] 0) =
        events_seen state + 1) \<and>
   (channel (cfg state) = 1 \<longrightarrow>
      process_packet_bytes ldbl tb state pts ats [0x91, 0x3C, 0x64] 0 = state) \<and>
   process_packet_bytes ldbl tb state pts ats [0x91, 0x3C, 0x00] 0 = state"
  by (simp add: process_one_note_on on_matching_event_def Let_def)

theorem process_packet_bytes_note_on_filter_witness:
  "channel (cfg (runtime_init \<lparr>channel = 2, cfg_count = 0, report_every = 100\<rparr>)) = 2 \<and>
   events_seen
     (process_packet_bytes 64 \<lparr>numer = 1, denom = 1\<rparr>
        (runtime_init \<lparr>channel = 2, cfg_count = 0, report_every = 100\<rparr>) 900 1000
        [0x91, 0x3C, 0x64] 0) = 1 \<and>
   channel (cfg (runtime_init \<lparr>channel = 1, cfg_count = 0, report_every = 100\<rparr>)) = 1 \<and>
   events_seen
     (process_packet_bytes 64 \<lparr>numer = 1, denom = 1\<rparr>
        (runtime_init \<lparr>channel = 1, cfg_count = 0, report_every = 100\<rparr>) 900 1000
        [0x91, 0x3C, 0x64] 0) = 0 \<and>
   events_seen
     (process_packet_bytes 64 \<lparr>numer = 1, denom = 1\<rparr>
        (runtime_init \<lparr>channel = 2, cfg_count = 0, report_every = 100\<rparr>) 900 1000
        [0x91, 0x3C, 0x00] 0) = 0"
proof -
  let ?tb = "\<lparr>numer = 1, denom = 1\<rparr>"
  let ?s2 = "runtime_init \<lparr>channel = 2, cfg_count = 0, report_every = 100\<rparr>"
  let ?s1 = "runtime_init \<lparr>channel = 1, cfg_count = 0, report_every = 100\<rparr>"
  have c2: "channel (cfg ?s2) = 2" and c1: "channel (cfg ?s1) = 1"
    by (simp_all add: runtime_init_def)
  have e2: "events_seen ?s2 = 0" and e1: "events_seen ?s1 = 0"
    by (simp_all add: runtime_init_def)
  from process_packet_bytes_note_on_filter [of ?s2 64 ?tb 900 1000] c2
  have a: "events_seen (process_packet_bytes 64 ?tb ?s2 900 1000 [0x91, 0x3C, 0x64] 0) =
           events_seen ?s2 + 1"
    and c: "process_packet_bytes 64 ?tb ?s2 900 1000 [0x91, 0x3C, 0x00] 0 = ?s2"
    by blast+
  from process_packet_bytes_note_on_filter [of ?s1 64 ?tb 900 1000] c1
  have b: "process_packet_bytes 64 ?tb ?s1 900 1000 [0x91, 0x3C, 0x64] 0 = ?s1"
    by blast
  show ?thesis
    unfolding a b c by (simp add: c1 c2 e1 e2)
qed

section \<open>Classifier: the scan ends\<close>

lemma sysex_scan_le: "i \<le> length data \<Longrightarrow> sysex_scan data i \<le> length data"
proof (induction data i rule: sysex_scan.induct)
  case (1 data i)
  show ?case
  proof (cases "i < length data \<and> data ! i \<noteq> 0xF7")
    case True
    with "1.IH" have "sysex_scan data (i + 1) \<le> length data" by simp
    moreover from True have "sysex_scan data i = sysex_scan data (i + 1)"
      by (subst sysex_scan.simps) simp
    ultimately show ?thesis by simp
  next
    case False
    then have "sysex_scan data i = i" by (subst sysex_scan.simps) auto
    with "1.prems" show ?thesis by simp
  qed
qed

lemma scan_pass_within:
  assumes "scan_pass c data i = Next i' hit" and "i < length data"
  shows "i' \<le> length data"
proof -
  let ?s = "data ! i"
  from assms(2) have j: "sysex_scan data (i + 1) \<le> length data"
    by (intro sysex_scan_le) simp
  consider (data) "?s AND 0x80 = 0"
    | (sysex) "?s AND 0x80 \<noteq> 0" "?s \<ge> 0xF0" "?s = 0xF0"
    | (system) "?s AND 0x80 \<noteq> 0" "?s \<ge> 0xF0" "?s \<noteq> 0xF0"
    | (voice) "?s AND 0x80 \<noteq> 0" "\<not> ?s \<ge> 0xF0"
    by blast
  then show ?thesis
  proof cases
    case data
    with assms show ?thesis by (simp add: scan_pass_def)
  next
    case sysex
    with assms(1)
    have "i' = (let j = sysex_scan data (i + 1) in if j < length data then j + 1 else j)"
      by (simp add: scan_pass_def Let_def)
    with j show ?thesis by (simp add: Let_def split: if_splits)
  next
    case system
    with assms show ?thesis
      by (simp add: scan_pass_def Let_def split: if_splits)
  next
    case voice
    with assms show ?thesis
      by (simp add: scan_pass_def Let_def split: if_splits)
  qed
qed

lemma midi_system_message_length_le: "midi_system_message_length s \<le> 3"
  by (simp add: midi_system_message_length_def)

lemma midi_channel_message_length_le: "midi_channel_message_length s \<le> 3"
  by (simp add: midi_channel_message_length_def Let_def)

lemma scan_pass_Stop:
  assumes "scan_pass c data i = Stop"
  shows "data ! i AND 0x80 \<noteq> 0 \<and> length data < i + 3"
proof -
  from assms have hi: "data ! i AND 0x80 \<noteq> 0"
    by (auto simp: scan_pass_def Let_def split: if_splits)
  from assms
  have "length data < i + midi_system_message_length (data ! i) \<or>
        length data < i + midi_channel_message_length (data ! i)"
    by (auto simp: scan_pass_def Let_def split: if_splits)
  with midi_system_message_length_le [of "data ! i"]
    midi_channel_message_length_le [of "data ! i"]
  have "length data < i + 3" by linarith
  with hi show ?thesis by simp
qed

lemma process_fuel_enough:
  "length data - i \<le> n \<Longrightarrow>
   process_fuel n ldbl tb state pts ats data i = Some (process_packet_bytes ldbl tb state pts ats data i)"
proof (induction n arbitrary: state i)
  case 0
  then show ?case by (simp add: process_packet_bytes.simps)
next
  case (Suc n)
  show ?case
  proof (cases "i < length data")
    case False
    then show ?thesis by (simp add: process_packet_bytes.simps)
  next
    case True
    show ?thesis
    proof (cases "scan_pass (channel (cfg state)) data i")
      case Stop
      with True show ?thesis
        by (subst process_packet_bytes.simps) simp
    next
      case (Next i' hit)
      then have "i < i'" by (rule scan_pass_advances)
      with Suc.prems have "length data - i' \<le> n" by simp
      from Suc.IH [OF this] Next True show ?thesis
        by (subst process_packet_bytes.simps) simp
    qed
  qed
qed

text \<open>
  C10.  \<^verbatim>\<open>process_packet_bytes\<close> ends on every buffer.  A pass of its loop, entered
  at an index \<open>i\<close> below the length, either leaves the loop (and then the message that
  starts at \<open>i\<close> is cut off by the end of the buffer) or goes on at an index that is
  larger than \<open>i\<close> and not beyond the length.  So a scan from index \<open>i\<close> that is allowed
  \<open>length data - i\<close> passes, or more, comes to its end with just the state that
  \<^verbatim>\<open>process_packet_bytes\<close> returns: a buffer of \<open>n\<close> bytes takes at most \<open>n\<close> passes.
\<close>

theorem process_packet_bytes_terminates:
  "(i < length data \<longrightarrow>
      (scan_pass c data i = Stop \<and> data ! i AND 0x80 \<noteq> 0 \<and> length data < i + 3) \<or>
      (\<exists>i' hit. scan_pass c data i = Next i' hit \<and> i + 1 \<le> i' \<and> i' \<le> length data)) \<and>
   (length data - i \<le> n \<longrightarrow>
      process_fuel n ldbl tb state pts ats data i =
        Some (process_packet_bytes ldbl tb state pts ats data i)) \<and>
   process_fuel (length data) ldbl tb state pts ats data 0 =
     Some (process_packet_bytes ldbl tb state pts ats data 0)"
proof (intro conjI impI)
  assume lt: "i < length data"
  show "(scan_pass c data i = Stop \<and> data ! i AND 0x80 \<noteq> 0 \<and> length data < i + 3) \<or>
        (\<exists>i' hit. scan_pass c data i = Next i' hit \<and> i + 1 \<le> i' \<and> i' \<le> length data)"
  proof (cases "scan_pass c data i")
    case Stop
    with scan_pass_Stop [OF Stop] show ?thesis by simp
  next
    case (Next i' hit)
    from scan_pass_advances [OF Next] scan_pass_within [OF Next lt] Next
    show ?thesis by simp
  qed
next
  assume "length data - i \<le> n"
  then show "process_fuel n ldbl tb state pts ats data i =
             Some (process_packet_bytes ldbl tb state pts ats data i)"
    by (rule process_fuel_enough)
next
  show "process_fuel (length data) ldbl tb state pts ats data 0 =
        Some (process_packet_bytes ldbl tb state pts ats data 0)"
    by (rule process_fuel_enough) simp
qed

lemma on_matching_event_cfg: "cfg (on_matching_event ldbl tb state pts ats) = cfg state"
  by (simp add: on_matching_event_def Let_def)

theorem process_packet_bytes_terminates_witness:
  "(3::nat) < length [0xF0, 0x01, 0xF7, 0x91, 0x3C, 0x64, 0x05, 0xF8, 0x92, 0x40 :: u8] \<and>
   scan_pass 2 [0xF0, 0x01, 0xF7, 0x91, 0x3C, 0x64, 0x05, 0xF8, 0x92, 0x40] 0 = Next 3 False \<and>
   scan_pass 2 [0xF0, 0x01, 0xF7, 0x91, 0x3C, 0x64, 0x05, 0xF8, 0x92, 0x40] 3 = Next 6 True \<and>
   scan_pass 2 [0xF0, 0x01, 0xF7, 0x91, 0x3C, 0x64, 0x05, 0xF8, 0x92, 0x40] 8 = Stop \<and>
   length [0xF0, 0x01, 0xF7, 0x91, 0x3C, 0x64, 0x05, 0xF8, 0x92, 0x40 :: u8] - 0 \<le> 10 \<and>
   process_fuel 10 64 \<lparr>numer = 1, denom = 1\<rparr>
     (runtime_init \<lparr>channel = 2, cfg_count = 0, report_every = 100\<rparr>) 900 1000
     [0xF0, 0x01, 0xF7, 0x91, 0x3C, 0x64, 0x05, 0xF8, 0x92, 0x40] 0 =
   Some (process_packet_bytes 64 \<lparr>numer = 1, denom = 1\<rparr>
     (runtime_init \<lparr>channel = 2, cfg_count = 0, report_every = 100\<rparr>) 900 1000
     [0xF0, 0x01, 0xF7, 0x91, 0x3C, 0x64, 0x05, 0xF8, 0x92, 0x40] 0) \<and>
   process_fuel 4 64 \<lparr>numer = 1, denom = 1\<rparr>
     (runtime_init \<lparr>channel = 2, cfg_count = 0, report_every = 100\<rparr>) 900 1000
     [0xF0, 0x01, 0xF7, 0x91, 0x3C, 0x64, 0x05, 0xF8, 0x92, 0x40] 0 = None"
proof -
  let ?buf = "[0xF0, 0x01, 0xF7, 0x91, 0x3C, 0x64, 0x05, 0xF8, 0x92, 0x40 :: u8]"
  let ?tb = "\<lparr>numer = 1, denom = 1\<rparr>"
  let ?st = "runtime_init \<lparr>channel = 2, cfg_count = 0, report_every = 100\<rparr>"
  have len: "(3::nat) < length ?buf" "length ?buf - 0 \<le> 10" by simp_all
  have x1: "sysex_scan ?buf (Suc 0) = 2"
    by (simp add: sysex_scan.simps)
  have p0: "scan_pass 2 ?buf 0 = Next 3 False"
    by (simp add: scan_pass_def x1)
  have p3: "scan_pass 2 ?buf 3 = Next 6 True"
    by (simp add: scan_pass_def midi_channel_message_length_def)
  have p6: "scan_pass 2 ?buf 6 = Next 7 False"
    by (simp add: scan_pass_def)
  have p7: "scan_pass 2 ?buf 7 = Next 8 False"
    by (simp add: scan_pass_def midi_system_message_length_def)
  have p8: "scan_pass 2 ?buf 8 = Stop"
    by (simp add: scan_pass_def midi_channel_message_length_def)
  from process_packet_bytes_terminates [of 0 ?buf 2 10 64 ?tb ?st 900 1000] len(2)
  have f: "process_fuel 10 64 ?tb ?st 900 1000 ?buf 0 =
           Some (process_packet_bytes 64 ?tb ?st 900 1000 ?buf 0)"
    by blast
  from process_packet_bytes_terminates [of 3 ?buf 2 10 64 ?tb ?st 900 1000] len(1)
  have "(scan_pass 2 ?buf 3 = Stop \<and> ?buf ! 3 AND 0x80 \<noteq> 0 \<and> length ?buf < 3 + 3) \<or>
        (\<exists>i' hit. scan_pass 2 ?buf 3 = Next i' hit \<and> 3 + 1 \<le> i' \<and> i' \<le> length ?buf)"
    by blast
  have c: "channel (cfg ?st) = 2" by (simp add: runtime_init_def)
  have n4: "process_fuel (Suc (Suc (Suc (Suc 0)))) 64 ?tb ?st 900 1000 ?buf 0 = None"
    by (simp add: on_matching_event_cfg c p0 p3 p6 p7)
  have four: "(4::nat) = Suc (Suc (Suc (Suc 0)))" by simp
  have n: "process_fuel 4 64 ?tb ?st 900 1000 ?buf 0 = None"
    by (simp only: four n4)
  from len p0 p3 p8 f n show ?thesis by (intro conjI)
qed

section \<open>Dispatch scheduler: the schedule the loop sends\<close>

text \<open>
  The messages of the first \<open>n\<close> iterations when nothing goes wrong: for each iteration
  the note-on at its on-target and the note-off at that on-target plus the gate.
\<close>

definition schedule :: "pulse_params \<Rightarrow> nat \<Rightarrow> midi_msg list" where
  "schedule p n =
     concat (map (\<lambda>k. [note_on_msg p (on_target_of p k),
                        note_off_msg p (on_target_of p k + gate_host p)]) [0..<n])"

text \<open>
  The time stamps of the messages at the even places of the list of sent messages (the
  note-ons: the loop sends on, off, on, off, ...) and at the odd places (the note-offs).
\<close>

fun on_timestamps :: "midi_msg list \<Rightarrow> u64 list" where
  "on_timestamps (m_on # m_off # rest) = timestamp m_on # on_timestamps rest"
| "on_timestamps [m_on] = [timestamp m_on]"
| "on_timestamps [] = []"


lemma schedule_0: "schedule p 0 = []"
  by (simp add: schedule_def)

lemma schedule_Suc:
  "schedule p (Suc n) =
   schedule p n @ [note_on_msg p (on_target_of p n),
                   note_off_msg p (on_target_of p n + gate_host p)]"
  by (simp add: schedule_def)

lemma length_schedule: "length (schedule p n) = 2 * n"
  by (induction n) (simp_all add: schedule_0 schedule_Suc)

lemma on_timestamps_pair_append:
  "on_timestamps (a # b # ms) = timestamp a # on_timestamps ms"
  by simp

lemma on_timestamps_even_append:
  "even (length ms) \<Longrightarrow> on_timestamps (ms @ ms') = on_timestamps ms @ on_timestamps ms'"
proof (induction ms rule: on_timestamps.induct)
  case (1 m_on m_off rest)
  then show ?case by simp
next
  case (2 m_on)
  then show ?case by simp
next
  case 3
  show ?case by simp
qed


lemma on_timestamps_schedule:
  "on_timestamps (schedule p n) = map (on_target_of p) [0..<n]"
proof (induction n)
  case 0
  show ?case by (simp add: schedule_0)
next
  case (Suc n)
  have "even (length (schedule p n))" by (simp add: length_schedule)
  then show ?case
    by (simp add: schedule_Suc on_timestamps_even_append Suc note_on_msg_def)
qed


lemma on_timestamps_schedule_on:
  "on_timestamps (schedule p n @ [note_on_msg p (on_target_of p n)]) =
   map (on_target_of p) [0..<Suc n]"
proof -
  have "even (length (schedule p n))" by (simp add: length_schedule)
  then show ?thesis
    by (simp add: on_timestamps_even_append on_timestamps_schedule note_on_msg_def)
qed


text \<open>The five ways through one iteration of the loop.\<close>

definition loop_running :: "pulse_params \<Rightarrow> nat \<Rightarrow> pulse_state \<Rightarrow> bool" where
  "loop_running p i st \<longleftrightarrow> clock st \<noteq> [] \<and> (pulse_count p = 0 \<or> int i < pulse_count p)"

definition dispatch_target_of :: "pulse_params \<Rightarrow> nat \<Rightarrow> u64" where
  "dispatch_target_of p i =
     (if on_target_of p i > schedule_lead_host p then on_target_of p i - schedule_lead_host p
      else on_target_of p i)"

definition after_note_on :: "nat \<Rightarrow> timebase \<Rightarrow> pulse_params \<Rightarrow> nat \<Rightarrow> u64 \<Rightarrow> u64 list \<Rightarrow> pulse_state \<Rightarrow> pulse_state" where
  "after_note_on ldbl tb p i dispatch_now rest st =
     st\<lparr>clock := rest, note_is_on := True, sent_notes := sent_notes st + 1,
        stats := stats_add ldbl (stats st) (delta_ns_from_host tb dispatch_now (on_target_of p i)),
        sent := sent st @ [note_on_msg p (on_target_of p i)]\<rparr>"

definition after_note_off :: "pulse_params \<Rightarrow> nat \<Rightarrow> pulse_state \<Rightarrow> pulse_state" where
  "after_note_off p i st1 =
     st1\<lparr>note_is_on := False,
         sent := sent st1 @ [note_off_msg p (on_target_of p i + gate_host p)]\<rparr>"

lemma pulse_loop_unfold:
  "pulse_loop ldbl tb p send_ok i st =
     (if \<not> loop_running p i st then st
      else case sleep_until_host (dispatch_target_of p i) (clock st) of
             [] \<Rightarrow> st\<lparr>clock := []\<rparr>
           | dispatch_now # rest \<Rightarrow>
               if \<not> send_ok (length (sent st)) then st\<lparr>clock := rest\<rparr>
               else if \<not> send_ok (Suc (length (sent st)))
                 then after_note_on ldbl tb p i dispatch_now rest st
                 else pulse_loop ldbl tb p send_ok (Suc i)
                        (after_note_off p i (after_note_on ldbl tb p i dispatch_now rest st)))"
  by (subst pulse_loop.simps)
     (simp add: loop_running_def dispatch_target_of_def on_target_of_def Let_def
        after_note_on_def after_note_off_def split: list.split)

lemma pulse_loop_exit:
  "\<not> loop_running p i st \<Longrightarrow> pulse_loop ldbl tb p send_ok i st = st"
  by (subst pulse_loop_unfold) simp

lemma pulse_loop_cancelled:
  "loop_running p i st \<Longrightarrow> sleep_until_host (dispatch_target_of p i) (clock st) = [] \<Longrightarrow>
   pulse_loop ldbl tb p send_ok i st = st\<lparr>clock := []\<rparr>"
  by (subst pulse_loop_unfold) simp

lemma pulse_loop_on_refused:
  "loop_running p i st \<Longrightarrow>
   sleep_until_host (dispatch_target_of p i) (clock st) = dispatch_now # rest \<Longrightarrow>
   \<not> send_ok (length (sent st)) \<Longrightarrow>
   pulse_loop ldbl tb p send_ok i st = st\<lparr>clock := rest\<rparr>"
  by (subst pulse_loop_unfold) simp

lemma pulse_loop_off_refused:
  "loop_running p i st \<Longrightarrow>
   sleep_until_host (dispatch_target_of p i) (clock st) = dispatch_now # rest \<Longrightarrow>
   send_ok (length (sent st)) \<Longrightarrow> \<not> send_ok (Suc (length (sent st))) \<Longrightarrow>
   pulse_loop ldbl tb p send_ok i st = after_note_on ldbl tb p i dispatch_now rest st"
  by (subst pulse_loop_unfold) simp

lemma pulse_loop_next:
  "loop_running p i st \<Longrightarrow>
   sleep_until_host (dispatch_target_of p i) (clock st) = dispatch_now # rest \<Longrightarrow>
   send_ok (length (sent st)) \<Longrightarrow> send_ok (Suc (length (sent st))) \<Longrightarrow>
   pulse_loop ldbl tb p send_ok i st =
     pulse_loop ldbl tb p send_ok (Suc i)
       (after_note_off p i (after_note_on ldbl tb p i dispatch_now rest st))"
  by (subst pulse_loop_unfold) simp

text \<open>
  What the loop has sent when it is left after \<open>n\<close> whole iterations: the schedule of
  \<open>n\<close> iterations, and the note-on of iteration \<open>n\<close> if the note is still on (its
  note-off was refused).
\<close>

definition sent_as_scheduled :: "pulse_params \<Rightarrow> nat \<Rightarrow> pulse_state \<Rightarrow> bool" where
  "sent_as_scheduled p n r \<longleftrightarrow>
     sent r = schedule p n @ (if note_is_on r then [note_on_msg p (on_target_of p n)] else [])"

definition loop_outcome ::
  "pulse_params \<Rightarrow> (nat \<Rightarrow> bool) \<Rightarrow> nat \<Rightarrow> nat \<Rightarrow> pulse_state \<Rightarrow> bool" where
  "loop_outcome p send_ok i n r \<longleftrightarrow>
     i \<le> n \<and> sent_as_scheduled p n r \<and>
     (0 < pulse_count p \<and> int i \<le> pulse_count p \<longrightarrow>
        int n \<le> pulse_count p \<and> (note_is_on r \<longrightarrow> int n < pulse_count p)) \<and>
     ((\<forall>k. send_ok k) \<and> clock r \<noteq> [] \<and> 0 < pulse_count p \<and> int i \<le> pulse_count p \<longrightarrow>
        int n = pulse_count p \<and> \<not> note_is_on r)"

lemma loop_outcome_weaken:
  "loop_outcome p send_ok (Suc i) n r \<Longrightarrow> (0 < pulse_count p \<longrightarrow> int i < pulse_count p) \<Longrightarrow>
   loop_outcome p send_ok i n r"
  by (auto simp: loop_outcome_def)

lemma loop_outcome_weaken_ex:
  "0 < pulse_count p \<longrightarrow> int i < pulse_count p \<Longrightarrow>
   \<exists>n. loop_outcome p send_ok (Suc i) n r \<Longrightarrow> \<exists>n. loop_outcome p send_ok i n r"
  using loop_outcome_weaken by blast

lemma pulse_loop_outcome:
  "sent st = schedule p i \<Longrightarrow> \<not> note_is_on st \<Longrightarrow>
   \<exists>n. loop_outcome p send_ok i n (pulse_loop ldbl tb p send_ok i st)"
proof (induction "length (clock st)" arbitrary: i st rule: less_induct)
  case less
  note sent = \<open>sent st = schedule p i\<close> and off = \<open>\<not> note_is_on st\<close>
  show ?case
  proof (cases "loop_running p i st")
    case False
    then have r: "pulse_loop ldbl tb p send_ok i st = st" by (rule pulse_loop_exit)
    from False have "clock st \<noteq> [] \<Longrightarrow> 0 < pulse_count p \<Longrightarrow> pulse_count p \<le> int i"
      by (auto simp: loop_running_def)
    with sent off have "loop_outcome p send_ok i i st"
      by (auto simp: loop_outcome_def sent_as_scheduled_def)
    with r show ?thesis by (simp only: exI)
  next
    case True
    then have bound: "0 < pulse_count p \<longrightarrow> int i < pulse_count p"
      by (auto simp: loop_running_def)
    show ?thesis
    proof (cases "sleep_until_host (dispatch_target_of p i) (clock st)")
      case Nil
      with True have r: "pulse_loop ldbl tb p send_ok i st = st\<lparr>clock := []\<rparr>"
        by (rule pulse_loop_cancelled)
      from sent off bound have "loop_outcome p send_ok i i (st\<lparr>clock := []\<rparr>)"
        by (auto simp: loop_outcome_def sent_as_scheduled_def)
      with r show ?thesis by (simp only: exI)
    next
      case (Cons dispatch_now rest)
      show ?thesis
      proof (cases "send_ok (length (sent st))")
        case False
        with True Cons have r: "pulse_loop ldbl tb p send_ok i st = st\<lparr>clock := rest\<rparr>"
          by (intro pulse_loop_on_refused)
        from sent off bound False have "loop_outcome p send_ok i i (st\<lparr>clock := rest\<rparr>)"
          by (auto simp: loop_outcome_def sent_as_scheduled_def)
        with r show ?thesis by (simp only: exI)
      next
        case ok1: True
        let ?st1 = "after_note_on ldbl tb p i dispatch_now rest st"
        show ?thesis
        proof (cases "send_ok (Suc (length (sent st)))")
          case False
          with True Cons ok1 have r: "pulse_loop ldbl tb p send_ok i st = ?st1"
            by (intro pulse_loop_off_refused)
          from sent bound False have "loop_outcome p send_ok i i ?st1"
            by (auto simp: loop_outcome_def sent_as_scheduled_def after_note_on_def)
          with r show ?thesis by (simp only: exI)
        next
          case ok2: True
          let ?st2 = "after_note_off p i ?st1"
          from True Cons ok1 ok2
          have r: "pulse_loop ldbl tb p send_ok i st = pulse_loop ldbl tb p send_ok (Suc i) ?st2"
            by (intro pulse_loop_next)
          from Cons have shorter: "length (clock ?st2) < length (clock st)"
            by (simp add: after_note_off_def after_note_on_def sleep_until_host_Cons)
          from sent have sent2: "sent ?st2 = schedule p (Suc i)"
            by (simp add: after_note_off_def after_note_on_def schedule_Suc)
          have off2: "\<not> note_is_on ?st2" by (simp add: after_note_off_def)
          have "\<exists>n. loop_outcome p send_ok (Suc i) n (pulse_loop ldbl tb p send_ok (Suc i) ?st2)"
            using shorter sent2 off2 by (rule less.hyps)
          with bound
          have "\<exists>n. loop_outcome p send_ok i n (pulse_loop ldbl tb p send_ok (Suc i) ?st2)"
            by (rule loop_outcome_weaken_ex)
          with r show ?thesis by (simp only: exI)
        qed
      qed
    qed
  qed
qed

text \<open>The loop as \<^verbatim>\<open>main\<close> enters it: iteration 0, nothing sent, the note off.\<close>

definition pulse_run :: "nat \<Rightarrow> timebase \<Rightarrow> pulse_params \<Rightarrow> (nat \<Rightarrow> bool) \<Rightarrow> u64 list \<Rightarrow> pulse_state" where
  "pulse_run ldbl tb p send_ok clk = pulse_loop ldbl tb p send_ok 0 (pulse_init clk)"

lemma pulse_run_outcome: "\<exists>n. loop_outcome p send_ok 0 n (pulse_run ldbl tb p send_ok clk)"
  unfolding pulse_run_def
  by (rule pulse_loop_outcome) (simp_all add: pulse_init_def schedule_0)

lemma sent_as_scheduled_on:
  assumes "sent_as_scheduled p n r"
  shows "on_timestamps (sent r) = map (on_target_of p) [0..<length (on_timestamps (sent r))]"
proof (cases "note_is_on r")
  case True
  with assms have "sent r = schedule p n @ [note_on_msg p (on_target_of p n)]"
    by (simp add: sent_as_scheduled_def)
  then have "on_timestamps (sent r) = map (on_target_of p) [0..<Suc n]"
    by (simp only: on_timestamps_schedule_on)
  then show ?thesis by simp
next
  case False
  with assms have "sent r = schedule p n" by (simp add: sent_as_scheduled_def)
  then have "on_timestamps (sent r) = map (on_target_of p) [0..<n]"
    by (simp only: on_timestamps_schedule)
  then show ?thesis by simp
qed

lemma sent_as_scheduled_on_length:
  assumes "sent_as_scheduled p n r"
  shows "length (on_timestamps (sent r)) = (if note_is_on r then Suc n else n)"
proof (cases "note_is_on r")
  case True
  with assms have "sent r = schedule p n @ [note_on_msg p (on_target_of p n)]"
    by (simp add: sent_as_scheduled_def)
  then have "on_timestamps (sent r) = map (on_target_of p) [0..<Suc n]"
    by (simp only: on_timestamps_schedule_on)
  with True show ?thesis by simp
next
  case False
  with assms have "sent r = schedule p n" by (simp add: sent_as_scheduled_def)
  then have "on_timestamps (sent r) = map (on_target_of p) [0..<n]"
    by (simp only: on_timestamps_schedule)
  with False show ?thesis by simp
qed

lemma llround_of_int: "llround (of_int k) = k"
proof (cases "0 \<le> k")
  case True
  have "\<lfloor>(of_int k :: rat) + 1 / 2\<rfloor> = k" by (rule floor_unique) simp_all
  with True show ?thesis by (simp add: llround_def)
next
  case False
  have "\<lceil>(of_int k :: rat) - 1 / 2\<rceil> = k" by (rule ceiling_unique) simp_all
  with False show ?thesis by (simp add: llround_def)
qed

text \<open>
  When the product of the interval in milliseconds and \<open>10^6\<close> is an integer below
  \<open>2^53\<close>, the computation of \<^verbatim>\<open>interval_ns\<close> does not round.
\<close>

lemma interval_ns_of_exact:
  assumes "\<bar>k\<bar> < 2^53" and "interval_ms * 1000000 = of_int k"
  shows "interval_ns_of interval_ms = word_of_int k"
proof -
  from assms(1) have "fl_round DBL_MANT_DIG (of_int k) = of_int k"
    unfolding DBL_MANT_DIG_def by (rule fl_round_of_int)
  then show ?thesis
    by (simp only: interval_ns_of_def assms(2) llround_of_int)
qed

text \<open>
  When the product of the interval and the gate is an integer below \<open>2^53\<close>, no step of
  the computation of \<^verbatim>\<open>gate_ns\<close> rounds.
\<close>

lemma gate_ns_of_exact:
  assumes ld: "53 \<le> ldbl"
    and n: "unat interval_ns < 2^53"
    and q: "of_nat (unat interval_ns) * gate = of_int k"
    and k: "\<bar>k\<bar> < 2^53"
  shows "gate_ns_of ldbl interval_ns gate = word_of_int k"
proof -
  from ld have "(2::nat) ^ 53 \<le> 2 ^ ldbl" by (intro power_increasing) simp_all
  with n have "unat interval_ns < 2 ^ ldbl" by simp
  then have c: "fl_round ldbl (of_nat (unat interval_ns)) = of_nat (unat interval_ns)"
    by (rule fl_round_of_nat)
  from ld have "(2::int) ^ 53 \<le> 2 ^ ldbl" by (intro power_increasing) simp_all
  with k have "\<bar>k\<bar> < 2 ^ ldbl" by simp
  then have l: "fl_round ldbl (of_int k) = of_int k" by (rule fl_round_of_int)
  from k have d: "fl_round DBL_MANT_DIG (of_int k) = of_int k"
    unfolding DBL_MANT_DIG_def by (rule fl_round_of_int)
  show ?thesis
    by (simp only: gate_ns_of_def c q l d llround_of_int)
qed

lemma llround_500ms: "interval_ns_of 500 = 500000000"
  using interval_ns_of_exact [of 500000000 500] by simp

text \<open>
  C1.  Whatever the clock shows and whenever a sleep returns, the on-targets of the
  note-ons the loop sends are, in order, \<open>start + i * interval\<close> for \<open>i = 0, 1, ...\<close>
  (64-bit tick arithmetic): each one is computed from the anchor and the index only.
  With a positive count there are at most count of them, and exactly count when no send
  is refused and the signal has not arrived by the end of the loop.  For an interval of
  500 ms and count 4 the on-targets of such a run are \<open>start\<close>, \<open>start + T\<close>,
  \<open>start + 2 T\<close> and \<open>start + 3 T\<close>, where \<open>T\<close> is 500 ms in ticks.
\<close>

theorem pulse_on_targets_anchored:
  "on_timestamps (sent (pulse_run ldbl tb p send_ok clk)) =
     map (\<lambda>i. start_host p + word_of_nat i * interval_host p)
       [0..<length (on_timestamps (sent (pulse_run ldbl tb p send_ok clk)))] \<and>
   (0 < pulse_count p \<longrightarrow>
      int (length (on_timestamps (sent (pulse_run ldbl tb p send_ok clk)))) \<le> pulse_count p) \<and>
   ((\<forall>k. send_ok k) \<and> clock (pulse_run ldbl tb p send_ok clk) \<noteq> [] \<and> 0 < pulse_count p \<longrightarrow>
      int (length (on_timestamps (sent (pulse_run ldbl tb p send_ok clk)))) = pulse_count p) \<and>
   ((\<forall>k. send_ok k) \<and> clock (pulse_run ldbl tb p send_ok clk) \<noteq> [] \<and> pulse_count p = 4 \<and>
    interval_host p = ns_to_host tb (interval_ns_of 500) \<longrightarrow>
      on_timestamps (sent (pulse_run ldbl tb p send_ok clk)) =
        [start_host p,
         start_host p + ns_to_host tb 500000000,
         start_host p + 2 * ns_to_host tb 500000000,
         start_host p + 3 * ns_to_host tb 500000000])"
proof -
  let ?r = "pulse_run ldbl tb p send_ok clk"
  let ?ons = "on_timestamps (sent ?r)"
  from pulse_run_outcome [of p send_ok ldbl tb clk]
  obtain n where out: "loop_outcome p send_ok 0 n ?r" ..
  then have sched: "sent_as_scheduled p n ?r" by (simp add: loop_outcome_def)
  have len: "length ?ons = (if note_is_on ?r then Suc n else n)"
    using sched by (rule sent_as_scheduled_on_length)
  have a: "?ons = map (\<lambda>i. start_host p + word_of_nat i * interval_host p) [0..<length ?ons]"
    using sent_as_scheduled_on [OF sched] by (simp add: on_target_of_def [abs_def])
  have b: "0 < pulse_count p \<longrightarrow> int (length ?ons) \<le> pulse_count p"
    using out len by (auto simp: loop_outcome_def)
  have c: "(\<forall>k. send_ok k) \<and> clock ?r \<noteq> [] \<and> 0 < pulse_count p \<longrightarrow>
           int (length ?ons) = pulse_count p"
    using out len by (auto simp: loop_outcome_def)
  have d: "(\<forall>k. send_ok k) \<and> clock ?r \<noteq> [] \<and> pulse_count p = 4 \<and>
           interval_host p = ns_to_host tb (interval_ns_of 500) \<longrightarrow>
           ?ons = [start_host p,
                   start_host p + ns_to_host tb 500000000,
                   start_host p + 2 * ns_to_host tb 500000000,
                   start_host p + 3 * ns_to_host tb 500000000]"
  proof
    assume h: "(\<forall>k. send_ok k) \<and> clock ?r \<noteq> [] \<and> pulse_count p = 4 \<and>
               interval_host p = ns_to_host tb (interval_ns_of 500)"
    with c have "int (length ?ons) = 4" by simp
    then have l4: "length ?ons = 4" by simp
    have "[0..<4] = [0, 1, 2, 3 :: nat]" by (simp add: upt_rec)
    with a l4 have "?ons = map (\<lambda>i. start_host p + word_of_nat i * interval_host p) [0, 1, 2, 3]"
      by simp
    with h show "?ons = [start_host p,
                   start_host p + ns_to_host tb 500000000,
                   start_host p + 2 * ns_to_host tb 500000000,
                   start_host p + 3 * ns_to_host tb 500000000]"
      by (simp add: llround_500ms)
  qed
  from a b c d show ?thesis by (intro conjI)
qed

lemma ns_to_host_125_3: "ns_to_host \<lparr>numer = 125, denom = 3\<rparr> ns = word_of_nat (unat ns * 3 div 125)"
  by (simp add: ns_to_host_exact)

lemma pulse_params_example:
  "pulse_params_of 64 \<lparr>numer = 125, denom = 3\<rparr> 0 60 100 4 500 (1 / 2) 1000000 =
   \<lparr>channel_zero_based = 0, note_num = 60, velocity = 100, pulse_count = 4,
    start_host = 1000000, interval_host = 12000000, gate_host = 6000000,
    schedule_lead_host = 48000\<rparr>"
proof -
  have "gate_ns_of 64 500000000 (1 / 2) = word_of_int 250000000"
    by (intro gate_ns_of_exact) simp_all
  then have g: "gate_ns_of 64 500000000 (1 / 2) = 250000000" by simp
  have l: "schedule_lead_ns_of 500000000 = 2000000"
    by (simp add: schedule_lead_ns_of_def)
  show ?thesis
    by (simp add: pulse_params_of_def llround_500ms g l ns_to_host_125_3)
qed

lemma pulse_run_example_clock:
  "clock (pulse_run 64 \<lparr>numer = 125, denom = 3\<rparr>
     \<lparr>channel_zero_based = 0, note_num = 60, velocity = 100, pulse_count = 4,
      start_host = 1000000, interval_host = 12000000, gate_host = 6000000,
      schedule_lead_host = 48000\<rparr> (\<lambda>k. True)
     [100, 960000, 960500, 5000000, 13500000, 13500100, 26000000, 26000001,
      30000000, 36990000, 36999000, 40000000]) = [40000000]"
  by (simp add: pulse_run_def pulse_init_def pulse_loop_unfold loop_running_def
        dispatch_target_of_def on_target_of_def after_note_on_def after_note_off_def)

theorem pulse_on_targets_anchored_witness:
  "(\<forall>k::nat. True) \<and>
   clock (pulse_run 64 \<lparr>numer = 125, denom = 3\<rparr>
     (pulse_params_of 64 \<lparr>numer = 125, denom = 3\<rparr> 0 60 100 4 500 (1 / 2) 1000000) (\<lambda>k. True)
     [100, 960000, 960500, 5000000, 13500000, 13500100, 26000000, 26000001,
      30000000, 36990000, 36999000, 40000000]) \<noteq> [] \<and>
   pulse_count (pulse_params_of 64 \<lparr>numer = 125, denom = 3\<rparr> 0 60 100 4 500 (1 / 2) 1000000) = 4 \<and>
   interval_host (pulse_params_of 64 \<lparr>numer = 125, denom = 3\<rparr> 0 60 100 4 500 (1 / 2) 1000000) =
     ns_to_host \<lparr>numer = 125, denom = 3\<rparr> (interval_ns_of 500) \<and>
   ns_to_host \<lparr>numer = 125, denom = 3\<rparr> 500000000 = 12000000 \<and>
   on_timestamps (sent (pulse_run 64 \<lparr>numer = 125, denom = 3\<rparr>
     (pulse_params_of 64 \<lparr>numer = 125, denom = 3\<rparr> 0 60 100 4 500 (1 / 2) 1000000) (\<lambda>k. True)
     [100, 960000, 960500, 5000000, 13500000, 13500100, 26000000, 26000001,
      30000000, 36990000, 36999000, 40000000])) =
     [1000000, 13000000, 25000000, 37000000]"
proof -
  let ?tb = "\<lparr>numer = 125, denom = 3\<rparr>"
  let ?p = "pulse_params_of 64 ?tb 0 60 100 4 500 (1 / 2) 1000000"
  let ?clk = "[100, 960000, 960500, 5000000, 13500000, 13500100, 26000000, 26000001,
      30000000, 36990000, 36999000, 40000000 :: u64]"
  let ?r = "pulse_run 64 ?tb ?p (\<lambda>k. True) ?clk"
  have ok: "\<forall>k::nat. True" by simp
  have clk: "clock ?r \<noteq> []"
    by (simp only: pulse_params_example pulse_run_example_clock) simp
  have cnt: "pulse_count ?p = 4" by (simp add: pulse_params_example)
  have T: "ns_to_host ?tb 500000000 = 12000000" by (simp add: ns_to_host_125_3)
  have ivl: "interval_host ?p = ns_to_host ?tb (interval_ns_of 500)"
    by (simp add: pulse_params_example llround_500ms T)
  have st: "start_host ?p = 1000000" by (simp add: pulse_params_example)
  from pulse_on_targets_anchored [of 64 ?tb ?p "\<lambda>k. True" ?clk] ok clk cnt ivl
  have "on_timestamps (sent ?r) =
        [start_host ?p,
         start_host ?p + ns_to_host ?tb 500000000,
         start_host ?p + 2 * ns_to_host ?tb 500000000,
         start_host ?p + 3 * ns_to_host ?tb 500000000]"
    by blast
  then have "on_timestamps (sent ?r) = [1000000, 13000000, 25000000, 37000000]"
    by (simp only: st T) simp
  with ok clk cnt ivl T show ?thesis by (intro conjI)
qed

section \<open>Dispatch scheduler: the off-targets\<close>
















text \<open>
  No clamping, seen at gate 1.0: the gate is the whole interval, and the off-target of
  an iteration is the on-target of the next one (for an interval below \<open>2^53\<close> ns).
\<close>

lemma gate_ns_of_one:
  assumes "53 \<le> ldbl" and "unat interval_ns < 2^53"
  shows "gate_ns_of ldbl interval_ns 1 = interval_ns"
proof -
  have q: "of_nat (unat interval_ns) * (1::rat) = of_int (int (unat interval_ns))"
    by simp
  from assms(2) have "int (unat interval_ns) < int (2^53)" by (simp only: of_nat_less_iff)
  then have k: "\<bar>int (unat interval_ns)\<bar> < 2^53"
    by (simp only: abs_of_nat of_nat_power of_nat_numeral)
  have "gate_ns_of ldbl interval_ns 1 = word_of_int (int (unat interval_ns))"
    using assms q k by (rule gate_ns_of_exact)
  then show ?thesis by simp
qed

lemma gate_one_off_target_is_next_on_target:
  assumes "53 \<le> ldbl" and "unat (interval_ns_of interval_ms) < 2^53"
    and "p = pulse_params_of ldbl tb ch n v cnt interval_ms 1 start"
  shows "on_target_of p i + gate_host p = on_target_of p (Suc i)"
proof -
  from assms have "gate_host p = interval_host p"
    by (simp add: pulse_params_of_def Let_def gate_ns_of_one)
  then show ?thesis
    by (simp add: on_target_of_def algebra_simps)
qed

end
